theory Spec2Isabelle
  imports Main "HOL-Library.Sublist"
begin

section \<open>Strings and character classes\<close>

text \<open>
  Source text is a \<open>string\<close>: a list of code units below 256.  The character classes are
  the ones the regular expressions of \<^verbatim>\<open>parser.ts\<close> use, restricted to that range:
  \<^verbatim>\<open>\s\<close> is tab, line feed, vertical tab, form feed, carriage return, space and the
  no-break space; \<^verbatim>\<open>\w\<close> is \<^verbatim>\<open>[A-Za-z0-9_]\<close>; a line terminator (what \<^verbatim>\<open>.\<close> refuses and
  what \<^verbatim>\<open>$\<close> with the \<^verbatim>\<open>m\<close> flag stops at) is line feed or carriage return.
\<close>

definition isLineTerminator :: "char \<Rightarrow> bool" where
  "isLineTerminator c = (c = CHR 0x0A \<or> c = CHR 0x0D)"

definition isSpace :: "char \<Rightarrow> bool" where
  "isSpace c = (c = CHR 0x09 \<or> c = CHR 0x0A \<or> c = CHR 0x0B \<or> c = CHR 0x0C \<or> c = CHR 0x0D
                 \<or> c = CHR 0x20 \<or> c = CHR 0xA0)"

definition isWord :: "char \<Rightarrow> bool" where
  "isWord c = (let n = (of_char c :: nat)
               in (48 \<le> n \<and> n \<le> 57) \<or> (65 \<le> n \<and> n \<le> 90) \<or> n = 95 \<or> (97 \<le> n \<and> n \<le> 122))"

text \<open>The class \<^verbatim>\<open>[\w<>[\]]\<close> of the type token.\<close>

definition isTypeChar :: "char \<Rightarrow> bool" where
  "isTypeChar c = (isWord c \<or> c = CHR ''<'' \<or> c = CHR ''>'' \<or> c = CHR ''['' \<or> c = CHR '']'')"

section \<open>Regular expressions\<close>

text \<open>
  The parser and the comment stripper are written with regular expressions.  They are
  modelled as terms of the type \<open>rx\<close> below and run by a backtracking matcher: \<open>run r\<close>
  gives, for a text and the groups captured so far, every way in which \<open>r\<close> matches at
  the start of the text, as the groups and the text that remains, in the order in which
  a backtracking matcher finds them.  The match JavaScript reports is the first one.

  The repetitions of the source are all repetitions of one character class, so the
  quantifiers are given for classes only.  \<open>runs P s\<close> lists what remains of \<open>s\<close>
  after \<open>k\<close> characters of the class \<open>P\<close> have been taken, for every possible \<open>k\<close>,
  the longest run first: the order in which a greedy quantifier tries them.
\<close>

fun runs :: "(char \<Rightarrow> bool) \<Rightarrow> string \<Rightarrow> string list" where
  "runs P [] = [[]]"
| "runs P (c # cs) = (if P c then runs P cs @ [c # cs] else [c # cs])"

text \<open>
  \<open>Lit\<close> is a literal text; \<open>PlusC\<close>, \<open>StarC\<close> and \<open>LazyC\<close> are \<^verbatim>\<open>X+\<close>, \<^verbatim>\<open>X*\<close> and \<^verbatim>\<open>X*?\<close>
  for a character class \<open>X\<close>; \<open>Seq\<close> is concatenation, \<open>Alt\<close> is \<^verbatim>\<open>a|b\<close>, \<open>Opt\<close> is
  \<^verbatim>\<open>(?:a)?\<close>, \<open>Cap i\<close> is the capturing group number \<open>i\<close>, \<open>Look\<close> is the look-ahead
  \<^verbatim>\<open>(?=a)\<close> and \<open>Eol\<close> is \<^verbatim>\<open>$\<close> under the flag \<^verbatim>\<open>m\<close>.
\<close>

datatype rx =
    Lit string
  | PlusC "char \<Rightarrow> bool"
  | StarC "char \<Rightarrow> bool"
  | LazyC "char \<Rightarrow> bool"
  | Seq rx rx
  | Alt rx rx
  | Opt rx
  | Cap nat rx
  | Look rx
  | Eol

type_synonym caps = "nat \<Rightarrow> string option"

text \<open>
  An optional group is tried with the group first and without it second; an alternation
  tries its branches from left to right; a look-ahead consumes nothing and is not
  re-entered on backtracking; a group that takes no part in the match stays undefined.
\<close>

fun run :: "rx \<Rightarrow> caps \<times> string \<Rightarrow> (caps \<times> string) list" where
  "run (Lit l) (c, s) = (if take (length l) s = l then [(c, drop (length l) s)] else [])"
| "run (PlusC P) (c, s) = map (Pair c) (butlast (runs P s))"
| "run (StarC P) (c, s) = map (Pair c) (runs P s)"
| "run (LazyC P) (c, s) = map (Pair c) (rev (runs P s))"
| "run (Seq a b) st = concat (map (run b) (run a st))"
| "run (Alt a b) st = run a st @ run b st"
| "run (Opt a) st = run a st @ [st]"
| "run (Cap i a) (c, s) =
     map (\<lambda>(c', s'). (c'(i \<mapsto> take (length s - length s') s), s')) (run a (c, s))"
| "run (Look a) (c, s) = (case run a (c, s) of [] \<Rightarrow> [] | (c', _) # _ \<Rightarrow> [(c', s)])"
| "run Eol (c, s) = (if s = [] \<or> isLineTerminator (hd s) then [(c, s)] else [])"

text \<open>\<^verbatim>\<open>r.exec\<close> at one position: the first match, if there is one.\<close>

definition exec :: "rx \<Rightarrow> string \<Rightarrow> (caps \<times> string) option" where
  "exec r s = (case run r (Map.empty, s) of [] \<Rightarrow> None | x # _ \<Rightarrow> Some x)"

text \<open>
  A lower bound for the length of a match, which makes the scanning loops below
  terminate.
\<close>

fun minlen :: "rx \<Rightarrow> nat" where
  "minlen (Lit l) = length l"
| "minlen (PlusC P) = 1"
| "minlen (Seq a b) = minlen a + minlen b"
| "minlen (Alt a b) = min (minlen a) (minlen b)"
| "minlen (Cap i a) = minlen a"
| "minlen _ = 0"

lemma runs_length: "x \<in> set (runs P s) \<Longrightarrow> length x \<le> length s"
  by (induction s) (auto split: if_splits)

lemma runs_butlast_length: "x \<in> set (butlast (runs P s)) \<Longrightarrow> length x < length s"
proof (induction s)
  case Nil
  then show ?case by simp
next
  case (Cons c cs)
  then show ?case
    using runs_length [of x P cs] by (auto split: if_splits simp: butlast_append)
qed

lemma run_minlen: "(c', s') \<in> set (run r (c, s)) \<Longrightarrow> length s' + minlen r \<le> length s"
proof (induction r arbitrary: c s c' s')
  case (Lit l)
  then show ?case by (auto split: if_splits dest: arg_cong [where f = length])
next
  case (PlusC P)
  then show ?case using runs_butlast_length [of s' P s] by auto
next
  case (StarC P)
  then show ?case using runs_length [of s' P s] by auto
next
  case (LazyC P)
  then show ?case using runs_length [of s' P s] by auto
next
  case (Seq a b)
  from Seq.prems obtain c1 s1 where
    "(c1, s1) \<in> set (run a (c, s))" "(c', s') \<in> set (run b (c1, s1))" by auto
  from Seq.IH(1) [OF this(1)] Seq.IH(2) [OF this(2)] show ?case by simp
next
  case (Alt a b)
  then show ?case by fastforce
next
  case (Opt a)
  then show ?case by fastforce
next
  case (Cap i a)
  then show ?case by fastforce
next
  case (Look a)
  then show ?case by (auto split: list.splits)
next
  case Eol
  then show ?case by (auto split: if_splits)
qed

lemma exec_minlen: "exec r s = Some (c', s') \<Longrightarrow> length s' + minlen r \<le> length s"
  using run_minlen [of c' s' r Map.empty s]
  by (auto simp: exec_def split: list.splits)

section \<open>Comment stripper (\<^verbatim>\<open>removeComments\<close>)\<close>

text \<open>
  \<^verbatim>\<open>/\/\/.*$/gm\<close> and \<^verbatim>\<open>/\/\*[\s\S]*?\*\//g\<close>.  The dot is every character but a line
  terminator.
\<close>

definition lineComment :: rx where
  "lineComment = Seq (Lit ''//'') (Seq (StarC (\<lambda>c. \<not> isLineTerminator c)) Eol)"

definition blockComment :: rx where
  "blockComment = Seq (Lit ''/*'') (Seq (LazyC (\<lambda>c. True)) (Lit ''*/''))"

text \<open>
  \<^verbatim>\<open>s.replace(r, "")\<close> for an expression with the flag \<^verbatim>\<open>g\<close>: every match, searched from
  left to right, is deleted, and the search goes on behind it.  A match of length zero
  deletes nothing and the search moves one character on.
\<close>

function replaceAll :: "rx \<Rightarrow> string \<Rightarrow> string" where
  "replaceAll r [] = []"
| "replaceAll r (c # cs) =
     (case exec r (c # cs) of
        None \<Rightarrow> c # replaceAll r cs
      | Some (m, rest) \<Rightarrow>
          if length rest < length (c # cs) then replaceAll r rest else c # replaceAll r cs)"
  by pat_completeness auto
termination
  by (relation "measure (\<lambda>(r, s). length s)") auto

declare replaceAll.simps(2) [simp del]

text \<open>The two calls of \<^verbatim>\<open>replace\<close>: the line comments first, the block comments second.\<close>

definition removeComments :: "string \<Rightarrow> string" where
  "removeComments source = replaceAll blockComment (replaceAll lineComment source)"

section \<open>Data model (\<^verbatim>\<open>parser.ts\<close>, \<^verbatim>\<open>compare.ts\<close>)\<close>

text \<open>
  The interfaces of \<^verbatim>\<open>parser.ts\<close>.  Field names that several interfaces share carry the
  interface as a prefix.  The modifier is a union of four string literals; \<open>modifierStr\<close>
  gives the string a template literal prints for it.
\<close>

datatype Modifier = Public | Private | Protected | Default

fun modifierStr :: "Modifier \<Rightarrow> string" where
  "modifierStr Public = ''public''"
| "modifierStr Private = ''private''"
| "modifierStr Protected = ''protected''"
| "modifierStr Default = ''default''"

record AttributeInfo =
  attrModifier :: Modifier
  attrType :: string
  attrName :: string

record ParameterInfo =
  paramType :: string
  paramName :: string

record MethodInfo =
  methodModifier :: Modifier
  returnType :: string
  methodName :: string
  parameters :: "ParameterInfo list"

record ClassInfo =
  className :: string
  classExtends :: "string option"
  attributes :: "AttributeInfo list"
  methods :: "MethodInfo list"

record ParseResult =
  classes :: "ClassInfo list"
  errors :: "string list"

text \<open>
  The interfaces of \<^verbatim>\<open>compare.ts\<close>.  \<^verbatim>\<open>AttributeComparison\<close> and \<^verbatim>\<open>MethodComparison\<close>
  have the same fields, so they are one record.  \<^verbatim>\<open>ClassComparison.children\<close> is never
  assigned by the comparator and is left out.
\<close>

record AttributeComparison =
  message :: string
  color :: string
  count :: "nat option"

type_synonym MethodComparison = AttributeComparison

record InheritanceComparison =
  inhMessage :: string
  inhColor :: string

record ClassComparison =
  nodeName :: string
  nodeType :: string
  nodeColor :: string
  nodeAttributes :: "AttributeComparison list"
  nodeMethods :: "MethodComparison list"
  inheritance :: "InheritanceComparison option"
  nodeExtends :: "string option"

definition BoxA :: string where "BoxA = ''Teacher''"

definition BoxB :: string where "BoxB = ''Student''"

section \<open>String helpers of the JavaScript runtime\<close>

text \<open>\<^verbatim>\<open>String(n)\<close> for a non-negative integer: its decimal digits.\<close>

definition digitChar :: "nat \<Rightarrow> char" where
  "digitChar d = ''0123456789'' ! d"

function showNat :: "nat \<Rightarrow> string" where
  "showNat n = (if n < 10 then [digitChar n] else showNat (n div 10) @ [digitChar (n mod 10)])"
  by pat_completeness auto

termination
  by (relation "measure id") auto

declare showNat.simps [simp del]

text \<open>
  \<^verbatim>\<open>s.split(d)\<close> for a one-character separator: the pieces between the occurrences of
  \<open>d\<close>; a text without \<open>d\<close> is one piece, and the result is never empty.
\<close>

fun splitOn :: "char \<Rightarrow> string \<Rightarrow> string list" where
  "splitOn d [] = [[]]"
| "splitOn d (c # cs) =
     (if c = d then [] # splitOn d cs
      else (case splitOn d cs of x # xs \<Rightarrow> (c # x) # xs | [] \<Rightarrow> [[c]]))"

text \<open>\<^verbatim>\<open>xs.join(d)\<close>.\<close>

fun joinWith :: "string \<Rightarrow> string list \<Rightarrow> string" where
  "joinWith d [] = []"
| "joinWith d [x] = x"
| "joinWith d (x # y # ys) = x @ d @ joinWith d (y # ys)"

text \<open>
  \<^verbatim>\<open>[...new Set(xs)]\<close>: a set keeps its elements in insertion order, and adding an
  element it already has changes nothing.
\<close>

definition setAdd :: "'a list \<Rightarrow> 'a \<Rightarrow> 'a list" where
  "setAdd s x = (if x \<in> set s then s else s @ [x])"

definition newSet :: "'a list \<Rightarrow> 'a list" where
  "newSet xs = foldl setAdd [] xs"

section \<open>Signature reducer (\<^verbatim>\<open>checkAttributeSignature\<close>, \<^verbatim>\<open>checkMethodSignature\<close>)\<close>

record AttrSig =
  sigModifier :: string
  sigType :: string
  sigCount :: nat

record MethodSig =
  msigModifier :: string
  msigReturnType :: string
  msigParameters :: string
  msigCount :: nat

definition attrSignature :: "AttributeInfo \<Rightarrow> string" where
  "attrSignature attr = modifierStr (attrModifier attr) @ ''|'' @ attrType attr"

definition paramTypes :: "MethodInfo \<Rightarrow> string" where
  "paramTypes method = joinWith '','' (map paramType (parameters method))"

definition methodSignature :: "MethodInfo \<Rightarrow> string" where
  "methodSignature method =
     modifierStr (methodModifier method) @ ''|'' @ returnType method @ ''|'' @ paramTypes method"

text \<open>
  The destructuring \<^verbatim>\<open>const [sigMod, sigType] = signature.split("|")\<close> takes the first
  two pieces.  A signature has at least one bar, so both exist (\<open>splitOn_two\<close> below); the
  last case of the \<open>case\<close> is never taken.
\<close>

definition checkAttributeSignature :: "AttributeInfo list \<Rightarrow> AttrSig list" where
  "checkAttributeSignature attrs =
     map (\<lambda>signature.
            case splitOn (CHR ''|'') signature of
              sigMod # sigTy # _ \<Rightarrow>
                \<lparr>sigModifier = sigMod, sigType = sigTy,
                 sigCount = length (filter (\<lambda>attr. modifierStr (attrModifier attr) = sigMod
                                                  \<and> attrType attr = sigTy) attrs)\<rparr>
            | _ \<Rightarrow> \<lparr>sigModifier = [], sigType = [], sigCount = 0\<rparr>)
         (newSet (map attrSignature attrs))"

definition checkMethodSignature :: "MethodInfo list \<Rightarrow> MethodSig list" where
  "checkMethodSignature ms =
     map (\<lambda>signature.
            case splitOn (CHR ''|'') signature of
              sigMod # sigReturn # sigParam # _ \<Rightarrow>
                \<lparr>msigModifier = sigMod, msigReturnType = sigReturn, msigParameters = sigParam,
                 msigCount = length (filter (\<lambda>method. modifierStr (methodModifier method) = sigMod
                                                   \<and> returnType method = sigReturn
                                                   \<and> paramTypes method = sigParam) ms)\<rparr>
            | _ \<Rightarrow> \<lparr>msigModifier = [], msigReturnType = [], msigParameters = [], msigCount = 0\<rparr>)
         (newSet (map methodSignature ms))"

section \<open>Comparator (\<^verbatim>\<open>compareParsedClasses\<close> of \<^verbatim>\<open>compare.ts\<close>)\<close>

definition red :: string where "red = ''text-red-500''"

definition green :: string where "green = ''text-green-500''"

definition yellow :: string where "yellow = ''text-yellow-500''"

text \<open>The entries pushed when the class is not found in \<open>b\<close>.\<close>

definition addedAttr :: "AttrSig \<Rightarrow> AttributeComparison" where
  "addedAttr sg =
     \<lparr>message = ''+ '' @ sigModifier sg @ '' '' @ sigType sg
                 @ '' (Count: '' @ showNat (sigCount sg) @ '')'',
      color = red, count = Some (sigCount sg)\<rparr>"

definition tempMod :: "string \<Rightarrow> string" where
  "tempMod modifier = (if modifier \<noteq> ''default'' then modifier @ '' '' else [])"

definition addedMethod :: "MethodSig \<Rightarrow> MethodComparison" where
  "addedMethod sg =
     \<lparr>message = ''+ '' @ tempMod (msigModifier sg) @ msigReturnType sg
                 @ ''('' @ msigParameters sg @ '') (Count: '' @ showNat (msigCount sg) @ '')'',
      color = red, count = Some (msigCount sg)\<rparr>"

text \<open>The four branches of the loop over \<^verbatim>\<open>aAttrSignature\<close>.\<close>

definition bothCounts :: "nat \<Rightarrow> nat \<Rightarrow> string" where
  "bothCounts ca cb =
     '' ('' @ BoxA @ '' ['' @ showNat ca @ ''] x '' @ BoxB @ '' ['' @ showNat cb @ ''])''"

definition attrEntry :: "AttrSig list \<Rightarrow> AttrSig \<Rightarrow> AttributeComparison" where
  "attrEntry bAttrSignature sg =
     (case find (\<lambda>attr. sigModifier attr = sigModifier sg \<and> sigType attr = sigType sg)
             bAttrSignature of
        None \<Rightarrow>
          \<lparr>message = ''- '' @ sigModifier sg @ '' '' @ sigType sg, color = red, count = None\<rparr>
      | Some matching \<Rightarrow>
          if sigCount matching < sigCount sg then
            \<lparr>message = ''- '' @ sigModifier sg @ '' '' @ sigType sg
                        @ bothCounts (sigCount sg) (sigCount matching),
             color = red, count = None\<rparr>
          else if sigCount matching > sigCount sg then
            \<lparr>message = ''~ '' @ sigModifier sg @ '' '' @ sigType sg
                        @ bothCounts (sigCount sg) (sigCount matching),
             color = yellow, count = None\<rparr>
          else
            \<lparr>message = ''+ '' @ sigModifier sg @ '' '' @ sigType sg
                        @ '' (Count: '' @ showNat (sigCount sg) @ '')'',
             color = green, count = Some (sigCount sg)\<rparr>)"

definition methodEntry :: "MethodSig list \<Rightarrow> MethodSig \<Rightarrow> MethodComparison" where
  "methodEntry bMethodSignature sg =
     (let head = tempMod (msigModifier sg) @ msigReturnType sg @ ''('' @ msigParameters sg @ '')''
      in case find (\<lambda>method. msigModifier method = msigModifier sg
                            \<and> msigReturnType method = msigReturnType sg
                            \<and> msigParameters method = msigParameters sg)
                bMethodSignature of
           None \<Rightarrow> \<lparr>message = ''- '' @ head, color = red, count = None\<rparr>
         | Some matching \<Rightarrow>
             if msigCount matching < msigCount sg then
               \<lparr>message = ''- '' @ head @ bothCounts (msigCount sg) (msigCount matching),
                color = red, count = None\<rparr>
             else if msigCount matching > msigCount sg then
               \<lparr>message = ''~ '' @ head @ bothCounts (msigCount sg) (msigCount matching),
                color = yellow, count = None\<rparr>
             else
               \<lparr>message = ''+ '' @ head @ '' (Count: '' @ showNat (msigCount sg) @ '')'',
                color = green, count = Some (msigCount sg)\<rparr>)"

text \<open>
  \<^verbatim>\<open>x ? `extends '${x}'` : "didn't extend"\<close>: an absent superclass and the empty string
  are both falsy.
\<close>

definition extendsText :: "string option \<Rightarrow> string" where
  "extendsText e =
     (case e of
        None \<Rightarrow> ''didn't extend''
      | Some x \<Rightarrow> if x = [] then ''didn't extend''
                  else ''extends '' @ [CHR 0x27] @ x @ [CHR 0x27])"

text \<open>
  The body of the loop over the class names of \<open>a\<close>: the node for \<open>name\<close>, from the
  class \<open>aClass\<close> of \<open>a\<close> and the result \<open>bClass\<close> of looking the name up in \<open>b\<close>.
\<close>

definition compareClass :: "string \<Rightarrow> ClassInfo \<Rightarrow> ClassInfo option \<Rightarrow> ClassComparison" where
  "compareClass name aClass bClass =
     (let classNode = \<lparr>nodeName = name, nodeType = ''class'', nodeColor = green,
                       nodeAttributes = [], nodeMethods = [], inheritance = None,
                       nodeExtends = classExtends aClass\<rparr>
      in case bClass of
           None \<Rightarrow>
             classNode\<lparr>nodeColor := red,
                       nodeAttributes := map addedAttr (checkAttributeSignature (attributes aClass)),
                       nodeMethods := map addedMethod (checkMethodSignature (methods aClass))\<rparr>
         | Some bc \<Rightarrow>
             (let classNode1 =
                    (if classExtends aClass \<noteq> classExtends bc
                     then classNode\<lparr>inheritance :=
                                       Some \<lparr>inhMessage = ''| '' @ BoxA @ '' '' @ extendsText (classExtends aClass)
                                                           @ '' vs '' @ BoxB @ '' '' @ extendsText (classExtends bc),
                                             inhColor = red\<rparr>,
                                     nodeColor := red\<rparr>
                     else classNode)
              in classNode1\<lparr>nodeAttributes :=
                               map (attrEntry (checkAttributeSignature (attributes bc)))
                                   (checkAttributeSignature (attributes aClass)),
                             nodeMethods :=
                               map (methodEntry (checkMethodSignature (methods bc)))
                                   (checkMethodSignature (methods aClass))\<rparr>))"

text \<open>
  The loop \<^verbatim>\<open>for (const className of teacherClassNames)\<close>.  \<^verbatim>\<open>a.find(...) as ClassInfo\<close>
  is a cast, not a check: were the class not found, reading \<^verbatim>\<open>aClass.extends\<close> would throw
  a TypeError, which is the result \<open>None\<close> here.
\<close>

fun compareLoop :: "ClassInfo list \<Rightarrow> ClassInfo list \<Rightarrow> string list \<Rightarrow> ClassComparison list
                     \<Rightarrow> ClassComparison list option" where
  "compareLoop a b [] comparisonTree = Some comparisonTree"
| "compareLoop a b (name # names) comparisonTree =
     (case find (\<lambda>c. className c = name) a of
        None \<Rightarrow> None
      | Some aClass \<Rightarrow>
          compareLoop a b names
            (comparisonTree @ [compareClass name aClass (find (\<lambda>c. className c = name) b)]))"

definition compareParsedClasses :: "ClassInfo list \<Rightarrow> ClassInfo list \<Rightarrow> ClassComparison list option" where
  "compareParsedClasses a b = compareLoop a b (newSet (map className a)) []"

section \<open>The earlier comparator (the \<^verbatim>\<open>compareParsedClasses\<close> that returns a report)\<close>

text \<open>
  The repository holds a second \<^verbatim>\<open>compareParsedClasses\<close>, the one its earlier \<^verbatim>\<open>App\<close>
  calls: it returns \<^verbatim>\<open>{ Identical, errors }\<close> instead of a tree of nodes.  Its signature
  reducers compute the same data as the ones above, as pairs instead of objects, and
  \<^verbatim>\<open>JSON.stringify\<close> is injective on lists of such pairs, so comparing the two JSON texts
  is comparing the two lists.
\<close>

record CompareReport =
  Identical :: bool
  reportErrors :: "string list"

definition attrReport :: "string \<Rightarrow> AttributeInfo list \<Rightarrow> AttributeInfo list \<Rightarrow> string list" where
  "attrReport name aAttributes bAttributes =
     (let aAttrSignature = checkAttributeSignature aAttributes;
          bAttrSignature = checkAttributeSignature bAttributes
      in if aAttrSignature \<noteq> bAttrSignature then
           (''Attribute mismatch for class '' @ name @ '': '' @ BoxA @ '':['' @ showNat (length aAttributes)
              @ ''] '' @ BoxB @ '':['' @ showNat (length bAttributes) @ '']'')
           # concat (map (\<lambda>sg.
                 case find (\<lambda>x. sigModifier x = sigModifier sg \<and> sigType x = sigType sg) bAttrSignature of
                   None \<Rightarrow>
                     [''Attribute '' @ [CHR 0x27] @ sigModifier sg @ '' '' @ sigType sg @ [CHR 0x27]
                        @ '' missing from class '' @ name @ '' in '' @ BoxB @ '' result.'']
                 | Some matching \<Rightarrow>
                     if sigCount matching \<noteq> sigCount sg then
                       [''Attribute '' @ [CHR 0x27] @ sigModifier sg @ '' '' @ sigType sg @ [CHR 0x27]
                          @ '' count mismatch for class '' @ name @ '': '' @ BoxA @ '':[''
                          @ showNat (sigCount sg) @ ''] '' @ BoxB @ '':['' @ showNat (sigCount matching) @ '']'']
                     else [])
               aAttrSignature)
         else [])"

definition methodReport :: "string \<Rightarrow> MethodInfo list \<Rightarrow> MethodInfo list \<Rightarrow> string list" where
  "methodReport name aMethods bMethods =
     (let aMethodSignature = checkMethodSignature aMethods;
          bMethodSignature = checkMethodSignature bMethods
      in if aMethodSignature \<noteq> bMethodSignature then
           (''Method mismatch for class '' @ name @ '': '' @ BoxA @ '':['' @ showNat (length aMethods)
              @ ''] '' @ BoxB @ '':['' @ showNat (length bMethods) @ '']'')
           # concat (map (\<lambda>sg.
                 let head = ''Method with signature '' @ [CHR 0x27] @ msigModifier sg @ '' ''
                            @ msigReturnType sg @ ''('' @ msigParameters sg @ '')'' @ [CHR 0x27]
                 in case find (\<lambda>x. msigModifier x = msigModifier sg
                                    \<and> msigReturnType x = msigReturnType sg
                                    \<and> msigParameters x = msigParameters sg) bMethodSignature of
                      None \<Rightarrow> [head @ '' missing from class '' @ name @ '' in '' @ BoxB @ '' result.'']
                    | Some matching \<Rightarrow>
                        if msigCount matching \<noteq> msigCount sg then
                          [head @ '' count mismatch for class '' @ name @ '': '' @ BoxA @ '':[''
                             @ showNat (msigCount sg) @ ''] '' @ BoxB @ '':[''
                             @ showNat (msigCount matching) @ '']'']
                        else [])
               aMethodSignature)
         else [])"

fun reportLoop :: "ClassInfo list \<Rightarrow> ClassInfo list \<Rightarrow> string list \<Rightarrow> string list
                    \<Rightarrow> string list option" where
  "reportLoop a b [] errs = Some errs"
| "reportLoop a b (name # names) errs =
     (case find (\<lambda>c. className c = name) a of
        None \<Rightarrow> None
      | Some aClass \<Rightarrow>
          (case find (\<lambda>c. className c = name) b of
             None \<Rightarrow>
               reportLoop a b names
                 (errs @ [''Class '' @ name @ '' not found in '' @ BoxB @ '' result.''])
           | Some bClass \<Rightarrow>
               reportLoop a b names
                 (errs @ attrReport name (attributes aClass) (attributes bClass)
                       @ methodReport name (methods aClass) (methods bClass))))"

definition classNumberMismatch :: "nat \<Rightarrow> nat \<Rightarrow> string" where
  "classNumberMismatch la lb =
     ''Class number mismatch '' @ BoxA @ '':['' @ showNat la @ ''] '' @ BoxB @ '':['' @ showNat lb @ '']''"

definition compareParsedClassesReport :: "ClassInfo list \<Rightarrow> ClassInfo list \<Rightarrow> CompareReport option" where
  "compareParsedClassesReport a b =
     map_option (\<lambda>errs. \<lparr>Identical = (length errs = 0), reportErrors = errs\<rparr>)
       (reportLoop a b (newSet (map className a))
          (if length a \<noteq> length b then [classNumberMismatch (length a) (length b)] else []))"

section \<open>Parser (\<^verbatim>\<open>parser.ts\<close>)\<close>

text \<open>\<^verbatim>\<open>s.trim()\<close>.\<close>

definition trim :: "string \<Rightarrow> string" where
  "trim s = rev (dropWhile isSpace (rev (dropWhile isSpace s)))"

subsection \<open>\<^verbatim>\<open>extractClassBodies\<close>\<close>

text \<open>\<^verbatim>\<open>/class\s+(\w+)(?:\s+extends\s+(\w+))?\s*\{/g\<close>.\<close>

definition classRegex :: rx where
  "classRegex =
     Seq (Lit ''class'')
    (Seq (PlusC isSpace)
    (Seq (Cap 1 (PlusC isWord))
    (Seq (Opt (Seq (PlusC isSpace)
              (Seq (Lit ''extends'')
              (Seq (PlusC isSpace) (Cap 2 (PlusC isWord))))))
    (Seq (StarC isSpace) (Lit ''{'')))))"

text \<open>
  One result of \<^verbatim>\<open>classRegex.exec\<close>: the class name \<^verbatim>\<open>match[1]\<close>, the superclass
  \<^verbatim>\<open>match[2]\<close>, which is undefined when the optional group took no part in the match, and
  the text behind the match, that is behind the opening brace.  The first group takes
  part in every match, so the case without it does not arise.
\<close>

definition execClass :: "string \<Rightarrow> (string \<times> string option \<times> string) option" where
  "execClass s =
     (case exec classRegex s of
        None \<Rightarrow> None
      | Some (m, rest) \<Rightarrow>
          (case m 1 of None \<Rightarrow> None | Some name \<Rightarrow> Some (name, m 2, rest)))"

lemma execClass_length: "execClass s = Some (name, ext, r) \<Longrightarrow> length r < length s"
  by (auto simp: execClass_def classRegex_def split: option.splits dest!: exec_minlen)

text \<open>
  The successive results of \<^verbatim>\<open>classRegex.exec(javaSource)\<close>: the leftmost match at or
  behind \<^verbatim>\<open>lastIndex\<close>, then the search goes on behind that match (behind its brace).
  Each result is the class name, the superclass and the text behind the brace.
\<close>

function classMatches :: "string \<Rightarrow> (string \<times> string option \<times> string) list" where
  "classMatches [] = []"
| "classMatches (c # cs) =
     (case execClass (c # cs) of
        None \<Rightarrow> classMatches cs
      | Some (name, ext, rest) \<Rightarrow> (name, ext, rest) # classMatches rest)"
  by pat_completeness auto
termination
  by (relation "measure length") (auto dest: execClass_length)

text \<open>
  The inner \<^verbatim>\<open>while\<close> loop, on the text behind the opening brace, with
  \<^verbatim>\<open>braceCount\<close> the depth reached so far: the text up to the brace that brings the depth
  to zero, or \<open>None\<close> when the text ends first.
\<close>

fun findClose :: "nat \<Rightarrow> string \<Rightarrow> string option" where
  "findClose braceCount [] = None"
| "findClose braceCount (c # cs) =
     (let n = (if c = CHR ''{'' then braceCount + 1
               else if c = CHR ''}'' then braceCount - 1 else braceCount)
      in if n = 0 then Some [] else map_option ((#) c) (findClose n cs))"

record ClassDecl =
  declName :: string
  extendsFrom :: "string option"
  body :: string

definition unmatchedBraces :: "string \<Rightarrow> string" where
  "unmatchedBraces name = ''Error: Unmatched braces in class '' @ [CHR 0x22] @ name @ [CHR 0x22]"

text \<open>
  The body of the outer \<^verbatim>\<open>while\<close> loop, for each match in turn.  The state is the array
  \<^verbatim>\<open>classes\<close> and the lines written with \<^verbatim>\<open>console.error\<close>.
\<close>

fun extractLoop :: "(string \<times> string option \<times> string) list \<Rightarrow> ClassDecl list \<times> string list
                     \<Rightarrow> ClassDecl list \<times> string list" where
  "extractLoop [] st = st"
| "extractLoop ((name, ext, rest) # ms) (cls, console) =
     (case findClose 1 rest of
        Some classBody \<Rightarrow>
          extractLoop ms (cls @ [\<lparr>declName = name, extendsFrom = ext, body = trim classBody\<rparr>], console)
      | None \<Rightarrow> extractLoop ms (cls, console @ [unmatchedBraces name]))"

definition extractClassBodies :: "string \<Rightarrow> ClassDecl list \<times> string list" where
  "extractClassBodies javaSource = extractLoop (classMatches javaSource) ([], [])"

subsection \<open>\<^verbatim>\<open>parseJavaAttributes\<close>\<close>

text \<open>
  The modifier group \<^verbatim>\<open>(?:(public|private|protected)\s+)?\<close>, with which both member
  expressions start, and
  \<^verbatim>\<open>/(?:(public|private|protected)\s+)?([\w<>[\]]+)\s+(\w+)\s*;/g\<close>.
\<close>

definition modifierRx :: rx where
  "modifierRx =
     Opt (Seq (Cap 1 (Alt (Lit ''public'') (Alt (Lit ''private'') (Lit ''protected''))))
              (PlusC isSpace))"

definition attributeRegex :: rx where
  "attributeRegex =
     Seq modifierRx
    (Seq (Cap 2 (PlusC isTypeChar))
    (Seq (PlusC isSpace)
    (Seq (Cap 3 (PlusC isWord))
    (Seq (StarC isSpace) (Lit '';'')))))"

text \<open>\<^verbatim>\<open>match[1] || "default"\<close>.\<close>

definition modifierOf :: "string option \<Rightarrow> Modifier" where
  "modifierOf g =
     (case g of
        None \<Rightarrow> Default
      | Some t \<Rightarrow> if t = ''public'' then Public else if t = ''private'' then Private
                  else if t = ''protected'' then Protected else Default)"

text \<open>
  One result of \<^verbatim>\<open>attributeRegex.exec\<close>: the modifier, the type \<^verbatim>\<open>match[2]\<close>, the name
  \<^verbatim>\<open>match[3]\<close> and the text behind the match.  The groups 2 and 3 take part in every
  match.
\<close>

definition execAttribute :: "string \<Rightarrow> (Modifier \<times> string \<times> string \<times> string) option" where
  "execAttribute s =
     (case exec attributeRegex s of
        None \<Rightarrow> None
      | Some (m, rest) \<Rightarrow>
          (case (m 2, m 3) of
             (Some ty, Some nm) \<Rightarrow> Some (modifierOf (m 1), ty, nm, rest)
           | _ \<Rightarrow> None))"

lemma execAttribute_length: "execAttribute s = Some (m, ty, nm, r) \<Longrightarrow> length r < length s"
  by (auto simp: execAttribute_def attributeRegex_def split: option.splits dest!: exec_minlen)

text \<open>
  The loop \<^verbatim>\<open>while ((match = attributeRegex.exec(classBody)) !== null)\<close>: the matches from
  left to right, each pushed unless its type token is \<^verbatim>\<open>return\<close>.
\<close>

function parseJavaAttributes :: "string \<Rightarrow> AttributeInfo list" where
  "parseJavaAttributes [] = []"
| "parseJavaAttributes (c # cs) =
     (case execAttribute (c # cs) of
        None \<Rightarrow> parseJavaAttributes cs
      | Some (m, ty, nm, rest) \<Rightarrow>
          (if ty \<noteq> ''return'' then [\<lparr>attrModifier = m, attrType = ty, attrName = nm\<rparr>] else [])
          @ parseJavaAttributes rest)"
  by pat_completeness auto
termination
  by (relation "measure length") (auto dest: execAttribute_length)

subsection \<open>\<^verbatim>\<open>parseJavaMethods\<close>\<close>

text \<open>
  \<^verbatim>\<open>/(?:(public|private|protected)\s+)?([\w<>[\]]+)\s+(\w+)\s*\(([^)]*)\)(?=\s*\{)/g\<close>.
\<close>

definition methodRegex :: rx where
  "methodRegex =
     Seq modifierRx
    (Seq (Cap 2 (PlusC isTypeChar))
    (Seq (PlusC isSpace)
    (Seq (Cap 3 (PlusC isWord))
    (Seq (StarC isSpace)
    (Seq (Lit ''('')
    (Seq (Cap 4 (StarC (\<lambda>c. c \<noteq> CHR '')'')))
    (Seq (Lit '')'')
         (Look (Seq (StarC isSpace) (Lit ''{''))))))))))"

text \<open>
  One result of \<^verbatim>\<open>methodRegex.exec\<close>: the modifier, the return type, the method name, the
  parameter text \<^verbatim>\<open>match[4] ?? ""\<close> and the text behind the match, which starts behind the
  closing bracket, since the look-ahead consumes nothing.
\<close>

definition execMethod :: "string \<Rightarrow> (Modifier \<times> string \<times> string \<times> string \<times> string) option" where
  "execMethod s =
     (case exec methodRegex s of
        None \<Rightarrow> None
      | Some (m, rest) \<Rightarrow>
          (case (m 2, m 3) of
             (Some ty, Some nm) \<Rightarrow>
               Some (modifierOf (m 1), ty, nm, (case m 4 of None \<Rightarrow> [] | Some ps \<Rightarrow> ps), rest)
           | _ \<Rightarrow> None))"

lemma execMethod_length: "execMethod s = Some (m, ty, nm, ps, r) \<Longrightarrow> length r < length s"
  by (auto simp: execMethod_def methodRegex_def split: option.splits dest!: exec_minlen)

text \<open>
  \<^verbatim>\<open>param.split(/\s+/)\<close>: the pieces between the runs of white space (an empty first or
  last piece when the text starts or ends with white space).
\<close>

function splitSpaces :: "string \<Rightarrow> string list" where
  "splitSpaces s =
     (let w = takeWhile (\<lambda>c. \<not> isSpace c) s; r = dropWhile (\<lambda>c. \<not> isSpace c) s
      in if r = [] then [w] else w # splitSpaces (dropWhile isSpace r))"
  by pat_completeness auto
termination
proof (relation "measure length", goal_cases)
  case 1
  show ?case by simp
next
  case (2 s w r)
  then obtain c cs where r: "dropWhile (\<lambda>c. \<not> isSpace c) s = c # cs"
    by (cases "dropWhile (\<lambda>c. \<not> isSpace c) s") auto
  then have "isSpace c" using hd_dropWhile [of "\<lambda>c. \<not> isSpace c" s] by auto
  then have "length (dropWhile isSpace (c # cs)) \<le> length cs"
    by (simp add: length_dropWhile_le)
  moreover have "length (c # cs) \<le> length s"
    using length_dropWhile_le [of "\<lambda>c. \<not> isSpace c" s] r by simp
  ultimately show ?case using 2 r by simp
qed

declare splitSpaces.simps [simp del]

text \<open>One pass of the loop \<^verbatim>\<open>for (const param of params)\<close>.\<close>

definition parseParam :: "string \<Rightarrow> ParameterInfo list" where
  "parseParam param =
     (let parts0 = splitSpaces param;
          parts = (if parts0 \<noteq> [] \<and> hd parts0 = ''final'' then tl parts0 else parts0)
      in if length parts < 2 then []
         else (let ty = joinWith '' '' (butlast parts); nm = last parts
               in if ty \<noteq> [] \<and> nm \<noteq> [] then [\<lparr>paramType = ty, paramName = nm\<rparr>] else []))"

definition parseParams :: "string \<Rightarrow> ParameterInfo list" where
  "parseParams text =
     (let paramsStr = trim text
      in if paramsStr \<noteq> []
         then concat (map parseParam
                (filter (\<lambda>p. length p > 0) (map trim (splitOn (CHR '','') paramsStr))))
         else [])"

text \<open>
  The loop \<^verbatim>\<open>while ((match = methodRegex.exec(classBody)) !== null)\<close>: every match is
  pushed as a method.
\<close>

function parseJavaMethods :: "string \<Rightarrow> MethodInfo list" where
  "parseJavaMethods [] = []"
| "parseJavaMethods (c # cs) =
     (case execMethod (c # cs) of
        None \<Rightarrow> parseJavaMethods cs
      | Some (m, ty, nm, ps, rest) \<Rightarrow>
          \<lparr>methodModifier = m, returnType = ty, methodName = nm, parameters = parseParams ps\<rparr>
          # parseJavaMethods rest)"
  by pat_completeness auto
termination
  by (relation "measure length") (auto dest: execMethod_length)

subsection \<open>\<^verbatim>\<open>parseJavaClasses\<close> and \<^verbatim>\<open>parseJavaFile\<close>\<close>

text \<open>
  Both return the \<^verbatim>\<open>ParseResult\<close> together with the lines written to the console on the
  way.  Nothing in the model throws, so the \<^verbatim>\<open>catch\<close> branch of \<^verbatim>\<open>parseJavaFile\<close> has no
  counterpart.
\<close>

definition parseJavaClasses :: "string \<Rightarrow> ParseResult \<times> string list" where
  "parseJavaClasses javaSource =
     (let (cls, console) = extractClassBodies javaSource
      in if length cls = 0
         then (\<lparr>classes = [], errors = [''No class declarations found.'']\<rparr>, console)
         else (\<lparr>classes = map (\<lambda>classDecl.
                               \<lparr>className = declName classDecl,
                                classExtends = extendsFrom classDecl,
                                attributes = parseJavaAttributes (body classDecl),
                                methods = parseJavaMethods (body classDecl)\<rparr>) cls,
                 errors = []\<rparr>, console))"

definition parseJavaFile :: "string \<Rightarrow> ParseResult \<times> string list" where
  "parseJavaFile source = parseJavaClasses (removeComments source)"

section \<open>The expressions without backtracking\<close>

text \<open>
  In the expressions of the source, whatever follows a greedy run must start with a
  character outside the class of the run: white space after a type token, a word
  character after white space, white space, a bracket, a brace or a semicolon after a
  word.  A shorter run can therefore never succeed where the longest one fails, and the
  only place where the matcher goes back is the optional group.  The functions of this
  section compute the matches directly, by longest runs; the section on the matcher
  below proves that they give the results of \<open>run\<close>.  \<open>lit\<close> matches a literal text
  and \<open>plus\<close> a longest run that is not empty; both return the text that remains.
\<close>

definition lit :: "string \<Rightarrow> string \<Rightarrow> string option" where
  "lit l s = (if take (length l) s = l then Some (drop (length l) s) else None)"

definition plus :: "(char \<Rightarrow> bool) \<Rightarrow> string \<Rightarrow> (string \<times> string) option" where
  "plus P s = (if takeWhile P s = [] then None else Some (takeWhile P s, dropWhile P s))"

text \<open>\<^verbatim>\<open>\s*\<close> followed by a literal.\<close>

definition spacesThen :: "string \<Rightarrow> string \<Rightarrow> string option" where
  "spacesThen l s = lit l (dropWhile isSpace s)"

text \<open>The group \<^verbatim>\<open>(?:\s+extends\s+(\w+))\<close>.\<close>

definition extendsGroup :: "string \<Rightarrow> (string \<times> string) option" where
  "extendsGroup s =
     (case plus isSpace s of
        None \<Rightarrow> None
      | Some (_, s1) \<Rightarrow>
          (case lit ''extends'' s1 of
             None \<Rightarrow> None
           | Some s2 \<Rightarrow>
               (case plus isSpace s2 of
                  None \<Rightarrow> None
                | Some (_, s3) \<Rightarrow> plus isWord s3)))"

text \<open>
  \<^verbatim>\<open>/class\s+(\w+)(?:\s+extends\s+(\w+))?\s*\{/\<close> at the start of \<open>s\<close>: the class name,
  the superclass if the group took part in the match, and the text behind the opening
  brace.  The optional group is tried first; when the match cannot be completed with it,
  the expression is tried without it.
\<close>

definition matchClassHeader :: "string \<Rightarrow> (string \<times> string option \<times> string) option" where
  "matchClassHeader s =
     (case lit ''class'' s of
        None \<Rightarrow> None
      | Some s1 \<Rightarrow>
          (case plus isSpace s1 of
             None \<Rightarrow> None
           | Some (_, s2) \<Rightarrow>
               (case plus isWord s2 of
                  None \<Rightarrow> None
                | Some (name, s3) \<Rightarrow>
                    (let without = map_option (\<lambda>r. (name, None, r)) (spacesThen ''{'' s3)
                     in case extendsGroup s3 of
                          None \<Rightarrow> without
                        | Some (ext, s4) \<Rightarrow>
                            (case spacesThen ''{'' s4 of
                               Some r \<Rightarrow> Some (name, Some ext, r)
                             | None \<Rightarrow> without)))))"

text \<open>
  The group \<^verbatim>\<open>(?:(public|private|protected)\s+)\<close>: the alternatives in their order, each
  followed by white space.
\<close>

definition modifierGroup :: "string \<Rightarrow> (Modifier \<times> string) option" where
  "modifierGroup s =
     (case (case lit ''public'' s of None \<Rightarrow> None | Some r \<Rightarrow> plus isSpace r) of
        Some (_, r) \<Rightarrow> Some (Public, r)
      | None \<Rightarrow>
          (case (case lit ''private'' s of None \<Rightarrow> None | Some r \<Rightarrow> plus isSpace r) of
             Some (_, r) \<Rightarrow> Some (Private, r)
           | None \<Rightarrow>
               (case (case lit ''protected'' s of None \<Rightarrow> None | Some r \<Rightarrow> plus isSpace r) of
                  Some (_, r) \<Rightarrow> Some (Protected, r)
                | None \<Rightarrow> None)))"

text \<open>\<^verbatim>\<open>([\w<>[\]]+)\s+(\w+)\<close>: the type token, white space, an identifier.\<close>

definition typeAndName :: "string \<Rightarrow> (string \<times> string \<times> string) option" where
  "typeAndName s =
     (case plus isTypeChar s of
        None \<Rightarrow> None
      | Some (ty, s1) \<Rightarrow>
          (case plus isSpace s1 of
             None \<Rightarrow> None
           | Some (_, s2) \<Rightarrow>
               (case plus isWord s2 of
                  None \<Rightarrow> None
                | Some (nm, s3) \<Rightarrow> Some (ty, nm, s3))))"

text \<open>The rest of the attribute expression: \<^verbatim>\<open>([\w<>[\]]+)\s+(\w+)\s*;\<close>.\<close>

definition attrTail :: "string \<Rightarrow> (string \<times> string \<times> string) option" where
  "attrTail s =
     (case typeAndName s of
        None \<Rightarrow> None
      | Some (ty, nm, s3) \<Rightarrow> map_option (\<lambda>r. (ty, nm, r)) (spacesThen '';'' s3))"

text \<open>
  \<^verbatim>\<open>/(?:(public|private|protected)\s+)?([\w<>[\]]+)\s+(\w+)\s*;/\<close> at the start of \<open>s\<close>:
  with the modifier group if the match can be completed with it, without it otherwise.
  The modifier is \<^verbatim>\<open>match[1] || "default"\<close>.
\<close>

definition matchAttr :: "string \<Rightarrow> (Modifier \<times> string \<times> string \<times> string) option" where
  "matchAttr s =
     (let without = map_option (\<lambda>(ty, nm, r). (Default, ty, nm, r)) (attrTail s)
      in case modifierGroup s of
           None \<Rightarrow> without
         | Some (m, s1) \<Rightarrow>
             (case attrTail s1 of
                Some (ty, nm, r) \<Rightarrow> Some (m, ty, nm, r)
              | None \<Rightarrow> without))"

text \<open>
  The rest of the method expression:
  \<^verbatim>\<open>([\w<>[\]]+)\s+(\w+)\s*\(([^)]*)\)(?=\s*\{)\<close>.  The parameter text is everything up to
  the first closing bracket.  The look-ahead asks for a brace behind optional white space
  and consumes nothing: the text that remains starts behind the closing bracket.
\<close>

definition methodTail :: "string \<Rightarrow> (string \<times> string \<times> string \<times> string) option" where
  "methodTail s =
     (case typeAndName s of
        None \<Rightarrow> None
      | Some (ty, nm, s3) \<Rightarrow>
          (case spacesThen ''('' s3 of
             None \<Rightarrow> None
           | Some s4 \<Rightarrow>
               (case lit '')'' (dropWhile (\<lambda>c. c \<noteq> CHR '')'') s4) of
                  None \<Rightarrow> None
                | Some s5 \<Rightarrow>
                    (case spacesThen ''{'' s5 of
                       None \<Rightarrow> None
                     | Some _ \<Rightarrow> Some (ty, nm, takeWhile (\<lambda>c. c \<noteq> CHR '')'') s4, s5)))))"

text \<open>The method expression, with the modifier group and without it.\<close>

definition matchMethod :: "string \<Rightarrow> (Modifier \<times> string \<times> string \<times> string \<times> string) option" where
  "matchMethod s =
     (let without = map_option (\<lambda>(ty, nm, ps, r). (Default, ty, nm, ps, r)) (methodTail s)
      in case modifierGroup s of
           None \<Rightarrow> without
         | Some (m, s1) \<Rightarrow>
             (case methodTail s1 of
                Some (ty, nm, ps, r) \<Rightarrow> Some (m, ty, nm, ps, r)
              | None \<Rightarrow> without))"

text \<open>
  The first pass of the comment stripper: the first two adjacent slashes start a match,
  which runs up to the next line terminator or to the end of the text; the scan goes on
  at the line terminator.
\<close>

function removeLineComments :: "string \<Rightarrow> string" where
  "removeLineComments [] = []"
| "removeLineComments [c] = [c]"
| "removeLineComments (c # d # cs) =
     (if c = CHR ''/'' \<and> d = CHR ''/''
      then removeLineComments (dropWhile (\<lambda>x. \<not> isLineTerminator x) cs)
      else c # removeLineComments (d # cs))"
  by pat_completeness auto
termination
  by (relation "measure length") (auto simp: less_Suc_eq_le le_SucI length_dropWhile_le)

text \<open>
  What follows the first \<^verbatim>\<open>*/\<close> of a text, if there is one: where the lazy star of the
  block-comment expression stops.
\<close>

fun findBlockEnd :: "string \<Rightarrow> string option" where
  "findBlockEnd (c # d # cs) =
     (if c = CHR ''*'' \<and> d = CHR ''/'' then Some cs else findBlockEnd (d # cs))"
| "findBlockEnd _ = None"

lemma findBlockEnd_length: "findBlockEnd s = Some r \<Longrightarrow> length r < length s"
  by (induction s rule: findBlockEnd.induct) (auto split: if_splits)

text \<open>
  The second pass: an opener with a closer behind it is deleted up to and including the
  closer, and the scan goes on behind it; an opener without a closer does not match,
  and the scan moves one character on.
\<close>

function removeBlockComments :: "string \<Rightarrow> string" where
  "removeBlockComments [] = []"
| "removeBlockComments [c] = [c]"
| "removeBlockComments (c # d # cs) =
     (if c = CHR ''/'' \<and> d = CHR ''*''
      then (case findBlockEnd cs of
              Some rest \<Rightarrow> removeBlockComments rest
            | None \<Rightarrow> c # removeBlockComments (d # cs))
      else c # removeBlockComments (d # cs))"
  by pat_completeness auto
termination
  by (relation "measure length") (auto dest: findBlockEnd_length)

section \<open>Notions used in the statements\<close>

subsection \<open>Comment stripper\<close>

text \<open>No two adjacent slashes.\<close>

fun noDoubleSlash :: "string \<Rightarrow> bool" where
  "noDoubleSlash (c # d # cs) = (\<not> (c = CHR ''/'' \<and> d = CHR ''/'') \<and> noDoubleSlash (d # cs))"
| "noDoubleSlash _ = True"





subsection \<open>Matcher\<close>

text \<open>An expression that can only match a text whose first character satisfies \<open>Q\<close>.\<close>

definition needs :: "(char \<Rightarrow> bool) \<Rightarrow> rx \<Rightarrow> bool" where
  "needs Q b = (\<forall>c s. (s = [] \<or> \<not> Q (hd s)) \<longrightarrow> run b (c, s) = [])"

text \<open>White space or the character \<open>d\<close>.\<close>

definition isSpaceOr :: "char \<Rightarrow> char \<Rightarrow> bool" where
  "isSpaceOr d c = (isSpace c \<or> c = d)"

subsection \<open>Comparator\<close>

text \<open>The nodes the loop pushes for a list of names.\<close>

definition nodesFor :: "ClassInfo list \<Rightarrow> ClassInfo list \<Rightarrow> string list \<Rightarrow> ClassComparison list" where
  "nodesFor a b names =
     concat (map (\<lambda>n. case find (\<lambda>c. className c = n) a of
                          None \<Rightarrow> []
                        | Some ac \<Rightarrow> [compareClass n ac (find (\<lambda>c. className c = n) b)]) names)"

text \<open>The number of attributes of a list with a given modifier text and type.\<close>

definition attrCount :: "AttributeInfo list \<Rightarrow> string \<Rightarrow> string \<Rightarrow> nat" where
  "attrCount xs m t = length (filter (\<lambda>y. modifierStr (attrModifier y) = m \<and> attrType y = t) xs)"










text \<open>Records for the instances below.\<close>

definition pubInt :: AttributeInfo where
  "pubInt = \<lparr>attrModifier = Public, attrType = ''int'', attrName = ''a''\<rparr>"

definition privString :: AttributeInfo where
  "privString = \<lparr>attrModifier = Private, attrType = ''String'', attrName = ''s''\<rparr>"

definition classX :: "AttributeInfo list \<Rightarrow> ClassInfo" where
  "classX attrs = \<lparr>className = ''X'', classExtends = None, attributes = attrs, methods = []\<rparr>"

definition classY :: "string \<Rightarrow> AttributeInfo list \<Rightarrow> ClassInfo" where
  "classY n attrs = \<lparr>className = n, classExtends = None, attributes = attrs, methods = []\<rparr>"



text \<open>
  The method the parser reads from \<^verbatim>\<open>else if (a | b) {\<close>, and a class with it.
\<close>

definition elseIf :: MethodInfo where
  "elseIf = \<lparr>methodModifier = Default, returnType = ''else'', methodName = ''if'',
              parameters = [\<lparr>paramType = ''a |'', paramName = ''b''\<rparr>]\<rparr>"








subsection \<open>Parser\<close>

text \<open>
  What one result of \<^verbatim>\<open>classRegex.exec\<close> contributes: a class record when the braces
  behind the header balance, a line on the console when they do not.
\<close>

definition matchClass :: "string \<times> string option \<times> string \<Rightarrow> ClassInfo list" where
  "matchClass mt =
     (case mt of (name, ext, rest) \<Rightarrow>
        (case findClose 1 rest of
           None \<Rightarrow> []
         | Some classBody \<Rightarrow>
             [\<lparr>className = name, classExtends = ext,
               attributes = parseJavaAttributes (trim classBody),
               methods = parseJavaMethods (trim classBody)\<rparr>]))"

definition matchConsole :: "string \<times> string option \<times> string \<Rightarrow> string list" where
  "matchConsole mt =
     (case mt of (name, ext, rest) \<Rightarrow>
        (case findClose 1 rest of None \<Rightarrow> [unmatchedBraces name] | Some _ \<Rightarrow> []))"

definition declClass :: "ClassDecl \<Rightarrow> ClassInfo" where
  "declClass classDecl =
     \<lparr>className = declName classDecl, classExtends = extendsFrom classDecl,
      attributes = parseJavaAttributes (body classDecl),
      methods = parseJavaMethods (body classDecl)\<rparr>"

text \<open>
  The text of a declaration: an optional modifier with white space \<open>wm\<close>, the type token,
  white space \<open>w1\<close>, the name, optional white space \<open>w2\<close> and the semicolon.
\<close>

definition declText :: "Modifier \<Rightarrow> string \<Rightarrow> string \<Rightarrow> string \<Rightarrow> string \<Rightarrow> string \<Rightarrow> string" where
  "declText m wm ty w1 nm w2 =
     (if m = Default then [] else modifierStr m @ wm) @ ty @ w1 @ nm @ w2 @ '';''"

text \<open>A text that is not empty and whose characters are all of one class; a text of white space.\<close>

definition token :: "(char \<Rightarrow> bool) \<Rightarrow> string \<Rightarrow> bool" where
  "token P t = (t \<noteq> [] \<and> (\<forall>c\<in>set t. P c))"

definition spaces :: "string \<Rightarrow> bool" where
  "spaces w = (\<forall>c\<in>set w. isSpace c)"

text \<open>
  The tokens at the start of a text: the maximal runs of type-token characters, separated
  by white space, up to the first character that is neither.
\<close>

function toks :: "string \<Rightarrow> string list" where
  "toks s =
     (if takeWhile isTypeChar (dropWhile isSpace s) = [] then []
      else takeWhile isTypeChar (dropWhile isSpace s)
           # toks (dropWhile isTypeChar (dropWhile isSpace s)))"
  by pat_completeness auto
termination
proof (relation "measure length", goal_cases)
  case 1
  show ?case by simp
next
  case (2 s)
  let ?t = "dropWhile isSpace s"
  from 2 have "length (dropWhile isTypeChar ?t) < length ?t"
    by (cases ?t) (auto intro: le_imp_less_Suc length_dropWhile_le split: if_splits)
  moreover have "length ?t \<le> length s" by (rule length_dropWhile_le)
  ultimately show ?case by simp
qed

declare toks.simps [simp del]

text \<open>The text ends with a modifier keyword followed by white space.\<close>

definition afterModifier :: "string \<Rightarrow> bool" where
  "afterModifier pre =
     (let t = dropWhile isSpace (rev pre)
      in length t < length pre
         \<and> (\<exists>m\<in>{Public, Private, Protected}. take (length (modifierStr m)) t = rev (modifierStr m)))"

section \<open>Lemmas\<close>

subsection \<open>Facts about the two passes\<close>

lemma removeLine_keep: "c \<noteq> CHR ''/'' \<Longrightarrow> removeLineComments (c # cs) = c # removeLineComments cs"
  by (cases cs) auto

lemma removeBlock_keep: "c \<noteq> CHR ''/'' \<Longrightarrow> removeBlockComments (c # cs) = c # removeBlockComments cs"
  by (cases cs) auto

lemma noDoubleSlash_Cons:
  "noDoubleSlash (c # cs) = ((c = CHR ''/'' \<longrightarrow> cs = [] \<or> hd cs \<noteq> CHR ''/'') \<and> noDoubleSlash cs)"
  by (cases cs) auto

lemma noDoubleSlash_removeLine: "noDoubleSlash (removeLineComments s)"
proof (induction s rule: removeLineComments.induct)
  case (3 c d cs)
  show ?case
  proof (cases "c = CHR ''/'' \<and> d = CHR ''/''")
    case True
    with 3 show ?thesis by simp
  next
    case False
    note nd = False
    show ?thesis
    proof (cases "c = CHR ''/''")
      case True
      with nd have "d \<noteq> CHR ''/''" by simp
      then have "removeLineComments (d # cs) = d # removeLineComments cs"
        by (rule removeLine_keep)
      with 3 nd \<open>d \<noteq> CHR ''/''\<close> show ?thesis by simp
    next
      case False
      with 3 nd show ?thesis by (simp add: noDoubleSlash_Cons)
    qed
  qed
qed simp_all

lemma removeLine_id: "noDoubleSlash s \<Longrightarrow> removeLineComments s = s"
  by (induction s rule: removeLineComments.induct) auto

lemma findBlockEnd_None_tl: "findBlockEnd (c # cs) = None \<Longrightarrow> findBlockEnd cs = None"
  by (cases cs) (auto split: if_splits)

lemma removeBlock_no_close: "findBlockEnd s = None \<Longrightarrow> removeBlockComments (x # s) = x # s"
proof (induction s arbitrary: x)
  case Nil
  show ?case by simp
next
  case (Cons c cs)
  have tl: "findBlockEnd cs = None" using Cons.prems by (rule findBlockEnd_None_tl)
  have "removeBlockComments (c # cs) = c # cs" using Cons.IH [OF tl] .
  then show ?case by (auto simp: tl)
qed

lemma findBlockEnd_noDoubleSlash:
  "findBlockEnd s = Some r \<Longrightarrow> noDoubleSlash s \<Longrightarrow> noDoubleSlash r"
  by (induction s rule: findBlockEnd.induct) (auto split: if_splits simp: noDoubleSlash_Cons)

lemma noDoubleSlash_removeBlock: "noDoubleSlash s \<Longrightarrow> noDoubleSlash (removeBlockComments s)"
proof (induction s rule: removeBlockComments.induct)
  case (3 c d cs)
  show ?case
  proof (cases "c = CHR ''/'' \<and> d = CHR ''*''")
    case True
    note op = True
    show ?thesis
    proof (cases "findBlockEnd cs")
      case None
      then have "removeBlockComments (d # cs) = d # cs" by (rule removeBlock_no_close)
      with op None "3.prems" show ?thesis by simp
    next
      case (Some rest)
      have "noDoubleSlash cs" using "3.prems" by (simp add: noDoubleSlash_Cons)
      with Some have "noDoubleSlash rest" by (rule findBlockEnd_noDoubleSlash)
      then have "noDoubleSlash (removeBlockComments rest)" by (rule "3.IH"(2) [OF op Some])
      with op Some show ?thesis by simp
    qed
  next
    case False
    note nop = False
    have nd: "noDoubleSlash (d # cs)" using "3.prems" by simp
    have ih: "noDoubleSlash (removeBlockComments (d # cs))" using "3.IH"(3) nop nd by simp
    show ?thesis
    proof (cases "c = CHR ''/''")
      case True
      with nop "3.prems" have "d \<noteq> CHR ''/''" "d \<noteq> CHR ''*''" by auto
      then have "removeBlockComments (d # cs) = d # removeBlockComments cs"
        by (simp add: removeBlock_keep)
      with ih nop \<open>d \<noteq> CHR ''/''\<close> show ?thesis by auto
    next
      case False
      with ih nop show ?thesis by (auto simp: noDoubleSlash_Cons)
    qed
  qed
qed simp_all

lemma removeBlock_twice: "noDoubleSlash s \<Longrightarrow> removeBlockComments (removeBlockComments s) = removeBlockComments s"
proof (induction s rule: removeBlockComments.induct)
  case (3 c d cs)
  show ?case
  proof (cases "c = CHR ''/'' \<and> d = CHR ''*''")
    case True
    note op = True
    show ?thesis
    proof (cases "findBlockEnd cs")
      case None
      then have "removeBlockComments (d # cs) = d # cs" by (rule removeBlock_no_close)
      with op None show ?thesis by simp
    next
      case (Some rest)
      have "noDoubleSlash cs" using "3.prems" by (simp add: noDoubleSlash_Cons)
      with Some have "noDoubleSlash rest" by (rule findBlockEnd_noDoubleSlash)
      then have "removeBlockComments (removeBlockComments rest) = removeBlockComments rest"
        by (rule "3.IH"(2) [OF op Some])
      with op Some show ?thesis by simp
    qed
  next
    case False
    note nop = False
    have nd: "noDoubleSlash (d # cs)" using "3.prems" by simp
    have ih: "removeBlockComments (removeBlockComments (d # cs)) = removeBlockComments (d # cs)"
      using "3.IH"(3) nop nd by simp
    have step: "removeBlockComments (c # d # cs) = c # removeBlockComments (d # cs)"
      using nop by auto
    show ?thesis
    proof (cases "c = CHR ''/''")
      case True
      with nop "3.prems" have "d \<noteq> CHR ''/''" "d \<noteq> CHR ''*''" by auto
      then have keep: "removeBlockComments (d # cs) = d # removeBlockComments cs"
        by (simp add: removeBlock_keep)
      have "removeBlockComments (c # d # removeBlockComments cs)
            = c # removeBlockComments (d # removeBlockComments cs)"
        using \<open>d \<noteq> CHR ''*''\<close> by auto
      with ih keep step show ?thesis by simp
    next
      case False
      then have "removeBlockComments (c # removeBlockComments (d # cs))
                 = c # removeBlockComments (removeBlockComments (d # cs))"
        by (rule removeBlock_keep)
      with ih step show ?thesis by simp
    qed
  qed
qed simp_all



























subsection \<open>Facts about the comparator\<close>

lemma foldl_setAdd_set: "set (foldl setAdd acc xs) = set acc \<union> set xs"
  by (induction xs arbitrary: acc) (auto simp: setAdd_def)

lemma foldl_setAdd_distinct: "distinct acc \<Longrightarrow> distinct (foldl setAdd acc xs)"
  by (induction xs arbitrary: acc) (auto simp: setAdd_def)

lemma set_newSet: "set (newSet xs) = set xs"
  by (simp add: newSet_def foldl_setAdd_set)

lemma distinct_newSet: "distinct (newSet xs)"
  by (simp add: newSet_def foldl_setAdd_distinct)


lemma filter_eq_distinct: "distinct xs \<Longrightarrow> x \<in> set xs \<Longrightarrow> filter (\<lambda>y. y = x) xs = [x]"
  by (induction xs) (auto simp: filter_empty_conv)

lemma find_className: "n \<in> className ` set a \<Longrightarrow> \<exists>ac. find (\<lambda>c. className c = n) a = Some ac"
  by (cases "find (\<lambda>c. className c = n) a") (auto simp: find_None_iff)

lemma compareLoop_nodes:
  "set names \<subseteq> className ` set a \<Longrightarrow> compareLoop a b names tree = Some (tree @ nodesFor a b names)"
proof (induction names arbitrary: tree)
  case Nil
  show ?case by (simp add: nodesFor_def)
next
  case (Cons n names)
  then obtain ac where ac: "find (\<lambda>c. className c = n) a = Some ac"
    using find_className [of n a] by auto
  from Cons.prems have "set names \<subseteq> className ` set a" by simp
  from Cons.IH [OF this] ac show ?case by (simp add: nodesFor_def)
qed

lemma compareParsedClasses_nodes:
  "compareParsedClasses a b = Some (nodesFor a b (newSet (map className a)))"
  unfolding compareParsedClasses_def
  using compareLoop_nodes [of "newSet (map className a)" a b "[]"] by (simp add: set_newSet)

lemma nodeName_compareClass: "nodeName (compareClass n ac bo) = n"
  by (simp add: compareClass_def Let_def split: option.splits)

lemma filter_nodesFor:
  "filter (\<lambda>x. nodeName x = n) (nodesFor a b names) = nodesFor a b (filter (\<lambda>m. m = n) names)"
  by (induction names) (auto simp: nodesFor_def nodeName_compareClass split: option.splits)

lemma map_nodeName_nodesFor:
  "set names \<subseteq> className ` set a \<Longrightarrow> map nodeName (nodesFor a b names) = names"
proof (induction names)
  case Nil
  show ?case by (simp add: nodesFor_def)
next
  case (Cons n names)
  then obtain ac where ac: "find (\<lambda>c. className c = n) a = Some ac"
    using find_className [of n a] by auto
  from Cons have "map nodeName (nodesFor a b names) = names" by simp
  with ac show ?case by (simp add: nodesFor_def nodeName_compareClass)
qed

lemma compare_node:
  assumes "find (\<lambda>c. className c = n) a = Some ac"
  shows "filter (\<lambda>x. nodeName x = n) (nodesFor a b (newSet (map className a)))
         = [compareClass n ac (find (\<lambda>c. className c = n) b)]"
proof -
  from assms have "ac \<in> set a" "className ac = n"
    by (auto simp: find_Some_iff in_set_conv_nth)
  then have "n \<in> set (newSet (map className a))" by (auto simp: set_newSet)
  then have "filter (\<lambda>m. m = n) (newSet (map className a)) = [n]"
    using distinct_newSet filter_eq_distinct by metis
  then have "filter (\<lambda>x. nodeName x = n) (nodesFor a b (newSet (map className a)))
             = nodesFor a b [n]"
    by (simp add: filter_nodesFor)
  also have "\<dots> = [compareClass n ac (find (\<lambda>c. className c = n) b)]"
    using assms by (simp add: nodesFor_def)
  finally show ?thesis .
qed

lemma find_first:
  "\<forall>x\<in>set pre. \<not> P x \<Longrightarrow> P c \<Longrightarrow> find P (pre @ c # post) = Some c"
  by (induction pre) auto

lemma splitOn_nonempty: "splitOn d s \<noteq> []"
  by (induction s) (auto split: list.splits)




lemma modifierStr_inj: "modifierStr m = modifierStr m' \<longleftrightarrow> m = m'"
  by (cases m; cases m') auto








lemma attrCount_pos: "x \<in> set xs \<Longrightarrow> 0 < attrCount xs (modifierStr (attrModifier x)) (attrType x)"
  by (auto simp: attrCount_def filter_empty_conv)
















lemma showNat_digit: "n < 10 \<Longrightarrow> showNat n = [digitChar n]"
  by (simp add: showNat.simps)

lemmas eval_defs = compareClass_def checkAttributeSignature_def checkMethodSignature_def
  attrSignature_def methodSignature_def paramTypes_def attrEntry_def methodEntry_def
  addedAttr_def addedMethod_def tempMod_def bothCounts_def BoxA_def BoxB_def
  newSet_def setAdd_def green_def red_def yellow_def showNat_digit digitChar_def Let_def

lemma reportLoop_total:
  "set names \<subseteq> className ` set a \<Longrightarrow> \<exists>more. reportLoop a b names errs = Some (errs @ more)"
proof (induction names arbitrary: errs)
  case Nil
  show ?case by simp
next
  case (Cons n names)
  then obtain ac where ac: "find (\<lambda>c. className c = n) a = Some ac"
    using find_className [of n a] by auto
  from Cons.prems have sub: "set names \<subseteq> className ` set a" by simp
  show ?case
  proof (cases "find (\<lambda>c. className c = n) b")
    case None
    from Cons.IH [OF sub, of "errs @ [''Class '' @ n @ '' not found in '' @ BoxB @ '' result.'']"]
    show ?thesis using ac None by auto
  next
    case (Some bc)
    from Cons.IH [OF sub, of "errs @ attrReport n (attributes ac) (attributes bc)
                                   @ methodReport n (methods ac) (methods bc)"]
    show ?thesis using ac Some by auto
  qed
qed





subsection \<open>Facts about the pieces of the expressions\<close>

lemma lit_length: "lit l s = Some r \<Longrightarrow> length r + length l = length s"
  by (auto simp: lit_def split: if_splits dest: arg_cong [where f = length])

lemma space_not_type: "isSpace c \<Longrightarrow> \<not> isTypeChar c"
  by (auto simp: isSpace_def isTypeChar_def isWord_def)

lemma word_is_type: "isWord c \<Longrightarrow> isTypeChar c"
  by (simp add: isTypeChar_def)

lemma semicolon_class: "\<not> isSpace (CHR '';'')" "\<not> isTypeChar (CHR '';'')" "\<not> isWord (CHR '';'')"
  by (auto simp: isSpace_def isTypeChar_def isWord_def)

lemma paren_class: "\<not> isSpace (CHR ''('')" "\<not> isWord (CHR ''('')"
  "\<not> isSpace (CHR ''{'')" "\<not> isWord (CHR ''{'')"
  by (auto simp: isSpace_def isWord_def)

lemma plus_Some:
  "plus P s = Some (a, r) \<longleftrightarrow> (a \<noteq> [] \<and> a = takeWhile P s \<and> r = dropWhile P s)"
  by (auto simp: plus_def)

lemma plus_shape:
  assumes "plus P s = Some (a, r)"
  shows "s = a @ r" "a \<noteq> []" "\<forall>c\<in>set a. P c" "r = [] \<or> \<not> P (hd r)"
  using assms hd_dropWhile [of P s]
  by (auto simp: plus_Some dest: set_takeWhileD)

lemma plus_token:
  assumes "a \<noteq> []" "\<forall>c\<in>set a. P c" "r = [] \<or> \<not> P (hd r)"
  shows "plus P (a @ r) = Some (a, r)"
proof -
  have "takeWhile P (a @ r) = a" using assms
    by (cases r) (auto simp: takeWhile_append2)
  moreover have "dropWhile P (a @ r) = r" using assms
    by (cases r) (auto simp: dropWhile_append2)
  ultimately show ?thesis using assms(1) by (simp add: plus_def)
qed

lemma lit_shape: "lit l s = Some r \<longleftrightarrow> s = l @ r"
  by (auto simp: lit_def) (metis append_take_drop_id)

lemma lit_None: "lit l s = None \<longleftrightarrow> (\<forall>r. s \<noteq> l @ r)"
  using lit_shape [of l s] by (cases "lit l s") auto

lemma lit_two: "lit [a, b] (c # d # cs) = (if c = a \<and> d = b then Some cs else None)"
  by (auto simp: lit_def)

lemma lit_two_short: "lit [a, b] [c] = None" "lit [a, b] [] = None"
  by (simp_all add: lit_def)

lemma spacesThen_shape:
  assumes "spacesThen l s = Some r"
  shows "\<exists>w. s = w @ l @ r \<and> (\<forall>c\<in>set w. isSpace c)"
proof -
  from assms have "dropWhile isSpace s = l @ r" by (simp add: spacesThen_def lit_shape)
  then have "s = takeWhile isSpace s @ l @ r"
    using takeWhile_dropWhile_id [of isSpace s] by simp
  then show ?thesis using set_takeWhileD [of _ isSpace s] by blast
qed

lemma spacesThen_token:
  assumes "\<forall>c\<in>set w. isSpace c" "l \<noteq> []" "\<not> isSpace (hd l)"
  shows "spacesThen l (w @ l @ r) = Some r"
proof -
  have "dropWhile isSpace (w @ l @ r) = l @ r" using assms
    by (cases l) (auto simp: dropWhile_append2)
  then show ?thesis by (simp add: spacesThen_def lit_shape)
qed

lemma typeAndName_shape:
  assumes "typeAndName s = Some (ty, nm, r)"
  shows "\<exists>w. s = ty @ w @ nm @ r \<and> ty \<noteq> [] \<and> (\<forall>c\<in>set ty. isTypeChar c)
             \<and> w \<noteq> [] \<and> (\<forall>c\<in>set w. isSpace c) \<and> nm \<noteq> [] \<and> (\<forall>c\<in>set nm. isWord c)"
proof -
  from assms obtain s1 w s2 where
    a: "plus isTypeChar s = Some (ty, s1)" "plus isSpace s1 = Some (w, s2)"
       "plus isWord s2 = Some (nm, r)"
    by (auto simp: typeAndName_def split: option.splits prod.splits)
  from plus_shape [OF a(1)] plus_shape [OF a(2)] plus_shape [OF a(3)]
  show ?thesis by auto
qed

lemma attrTail_shape:
  assumes "attrTail s = Some (ty, nm, r)"
  shows "\<exists>k. s = k @ '';'' @ r \<and> (\<forall>c\<in>set k. isTypeChar c \<or> isSpace c)"
proof -
  from assms obtain s3 where a: "typeAndName s = Some (ty, nm, s3)" "spacesThen '';'' s3 = Some r"
    by (auto simp: attrTail_def split: option.splits prod.splits)
  from typeAndName_shape [OF a(1)] obtain w where
    w: "s = ty @ w @ nm @ s3" "\<forall>c\<in>set ty. isTypeChar c" "\<forall>c\<in>set w. isSpace c"
       "\<forall>c\<in>set nm. isWord c" by blast
  from spacesThen_shape [OF a(2)] obtain w' where w': "s3 = w' @ '';'' @ r" "\<forall>c\<in>set w'. isSpace c"
    by blast
  have "s = (ty @ w @ nm @ w') @ '';'' @ r" using w(1) w'(1) by simp
  moreover have "\<forall>c\<in>set (ty @ w @ nm @ w'). isTypeChar c \<or> isSpace c"
    using w w' by (auto simp: word_is_type)
  ultimately show ?thesis by blast
qed

lemma modifierGroup_cases:
  assumes "modifierGroup s = Some (m, r)"
  shows "m \<noteq> Default \<and> (\<exists>w. s = modifierStr m @ w @ r \<and> w \<noteq> [] \<and> (\<forall>c\<in>set w. isSpace c)
                              \<and> (r = [] \<or> \<not> isSpace (hd r)))"
proof -
  from assms obtain l w s1 where
    "(l = ''public'' \<and> m = Public) \<or> (l = ''private'' \<and> m = Private) \<or> (l = ''protected'' \<and> m = Protected)"
    "lit l s = Some s1" "plus isSpace s1 = Some (w, r)"
    by (auto simp: modifierGroup_def split: option.splits prod.splits)
  then show ?thesis using plus_shape [of isSpace s1 w r] by (auto simp: lit_shape)
qed

lemma modifierGroup_not_Default: "modifierGroup s = Some (m, r) \<Longrightarrow> m \<noteq> Default"
  using modifierGroup_cases by blast

lemma modifierStr_word: "\<forall>c\<in>set (modifierStr m). isTypeChar c"
  by (cases m) (auto simp: isTypeChar_def isWord_def)

lemma matchAttr_cases:
  "matchAttr s = Some (m, ty, nm, r) \<Longrightarrow>
     (m = Default \<and> attrTail s = Some (ty, nm, r))
     \<or> (\<exists>s1. modifierGroup s = Some (m, s1) \<and> attrTail s1 = Some (ty, nm, r))"
  by (auto simp: matchAttr_def Let_def split: option.splits prod.splits)

lemma matchAttr_shape:
  assumes "matchAttr s = Some (m, ty, nm, r)"
  shows "\<exists>k. s = k @ '';'' @ r \<and> (\<forall>c\<in>set k. isTypeChar c \<or> isSpace c)"
proof -
  from matchAttr_cases [OF assms] show ?thesis
  proof
    assume "m = Default \<and> attrTail s = Some (ty, nm, r)"
    then show ?thesis using attrTail_shape by blast
  next
    assume "\<exists>s1. modifierGroup s = Some (m, s1) \<and> attrTail s1 = Some (ty, nm, r)"
    then obtain s1 where a: "modifierGroup s = Some (m, s1)" "attrTail s1 = Some (ty, nm, r)" by blast
    from modifierGroup_cases [OF a(1)] obtain w where
      w: "s = modifierStr m @ w @ s1" "\<forall>c\<in>set w. isSpace c" by blast
    from attrTail_shape [OF a(2)] obtain k where
      k: "s1 = k @ '';'' @ r" "\<forall>c\<in>set k. isTypeChar c \<or> isSpace c" by blast
    have "s = (modifierStr m @ w @ k) @ '';'' @ r" using w(1) k(1) by simp
    moreover have "\<forall>c\<in>set (modifierStr m @ w @ k). isTypeChar c \<or> isSpace c"
      using w(2) k(2) modifierStr_word [of m] by auto
    ultimately show ?thesis by blast
  qed
qed

lemma matchAttr_space: "isSpace c \<Longrightarrow> matchAttr (c # cs) = None"
proof -
  assume sp: "isSpace c"
  then have nt: "\<not> isTypeChar c" by (rule space_not_type)
  have "attrTail (c # cs) = None"
    using nt by (simp add: attrTail_def typeAndName_def plus_def)
  moreover have "modifierGroup (c # cs) = None"
    using sp by (auto simp: modifierGroup_def lit_def isSpace_def split: option.splits)
  ultimately show ?thesis by (simp add: matchAttr_def)
qed

subsection \<open>The matcher and the expressions without backtracking\<close>

text \<open>
  A greedy run followed by an expression that needs a first character outside the class
  of the run matches in one way only: with the longest run.
\<close>

lemma runs_split:
  "\<exists>xs. runs P s = dropWhile P s # xs \<and> (\<forall>x\<in>set xs. x \<noteq> [] \<and> P (hd x))"
proof (induction s)
  case Nil
  show ?case by simp
next
  case (Cons c cs)
  then obtain xs where xs: "runs P cs = dropWhile P cs # xs" "\<forall>x\<in>set xs. x \<noteq> [] \<and> P (hd x)"
    by blast
  show ?case
  proof (cases "P c")
    case True
    with xs have "runs P (c # cs) = dropWhile P (c # cs) # (xs @ [c # cs])"
      "\<forall>x\<in>set (xs @ [c # cs]). x \<noteq> [] \<and> P (hd x)" by simp_all
    then show ?thesis by blast
  next
    case False
    then show ?thesis by simp
  qed
qed

lemma runs_last: "last (runs P s) = s" "runs P s \<noteq> []"
  by (induction s) auto

lemma runs_plus_split:
  "takeWhile P s \<noteq> [] \<Longrightarrow>
     \<exists>xs. butlast (runs P s) = dropWhile P s # xs \<and> (\<forall>x\<in>set xs. x \<noteq> [] \<and> P (hd x))"
proof -
  assume ne: "takeWhile P s \<noteq> []"
  from runs_split [of P s] obtain xs where
    xs: "runs P s = dropWhile P s # xs" "\<forall>x\<in>set xs. x \<noteq> [] \<and> P (hd x)" by blast
  have "length s = length (takeWhile P s) + length (dropWhile P s)"
    by (metis length_append takeWhile_dropWhile_id)
  with ne have "dropWhile P s \<noteq> s" by auto
  with runs_last(1) [of P s] xs(1) have "xs \<noteq> []" by (cases xs) auto
  with xs have "butlast (runs P s) = dropWhile P s # butlast xs"
    "\<forall>x\<in>set (butlast xs). x \<noteq> [] \<and> P (hd x)"
    by (auto dest: in_set_butlastD)
  then show ?thesis by blast
qed

lemma runs_plus_none: "takeWhile P s = [] \<Longrightarrow> butlast (runs P s) = []"
  by (cases s) (auto split: if_splits)

lemma concat_fail:
  assumes "\<forall>x\<in>set xs. f x = []"
  shows "concat (map f xs) = []"
  using assms by (induction xs) auto

lemma seq_star_det:
  assumes "\<forall>ch. P ch \<longrightarrow> \<not> Q ch" "needs Q b"
  shows "run (Seq (StarC P) b) (c, s) = run b (c, dropWhile P s)"
proof -
  from runs_split [of P s] obtain xs where
    xs: "runs P s = dropWhile P s # xs" "\<forall>x\<in>set xs. x \<noteq> [] \<and> P (hd x)" by blast
  have "\<forall>x\<in>set xs. run b (c, x) = []" using xs(2) assms by (auto simp: needs_def)
  then have "concat (map (\<lambda>x. run b (c, x)) xs) = []" by (rule concat_fail)
  with xs(1) show ?thesis by (simp add: comp_def)
qed

lemma seq_plus_det:
  assumes "\<forall>ch. P ch \<longrightarrow> \<not> Q ch" "needs Q b"
  shows "run (Seq (PlusC P) b) (c, s)
         = (if takeWhile P s = [] then [] else run b (c, dropWhile P s))"
proof (cases "takeWhile P s = []")
  case True
  then show ?thesis by (simp add: runs_plus_none)
next
  case False
  from runs_plus_split [OF False] obtain xs where
    xs: "butlast (runs P s) = dropWhile P s # xs" "\<forall>x\<in>set xs. x \<noteq> [] \<and> P (hd x)" by blast
  have "\<forall>x\<in>set xs. run b (c, x) = []" using xs(2) assms by (auto simp: needs_def)
  then have "concat (map (\<lambda>x. run b (c, x)) xs) = []" by (rule concat_fail)
  with xs(1) False show ?thesis by (simp add: comp_def)
qed

lemma take_takeWhile: "take (length s - length (dropWhile P s)) s = takeWhile P s"
proof -
  have "length s = length (takeWhile P s) + length (dropWhile P s)"
    by (metis length_append takeWhile_dropWhile_id)
  then have "length s - length (dropWhile P s) = length (takeWhile P s)" by simp
  then show ?thesis by (metis append_eq_conv_conj takeWhile_dropWhile_id)
qed

lemma seq_cap_plus_det:
  assumes "\<forall>ch. P ch \<longrightarrow> \<not> Q ch" "needs Q b"
  shows "run (Seq (Cap i (PlusC P)) b) (c, s)
         = (if takeWhile P s = [] then []
            else run b (c(i \<mapsto> takeWhile P s), dropWhile P s))"
proof (cases "takeWhile P s = []")
  case True
  then show ?thesis by (simp add: runs_plus_none)
next
  case False
  from runs_plus_split [OF False] obtain xs where
    xs: "butlast (runs P s) = dropWhile P s # xs" "\<forall>x\<in>set xs. x \<noteq> [] \<and> P (hd x)" by blast
  have "\<forall>x\<in>set xs. run b (c(i \<mapsto> take (length s - length x) s), x) = []"
    using xs(2) assms by (auto simp: needs_def)
  then have "concat (map (\<lambda>x. run b (c(i \<mapsto> take (length s - length x) s), x)) xs) = []"
    by (rule concat_fail)
  with xs(1) False show ?thesis by (simp add: comp_def take_takeWhile)
qed

lemma seq_cap_star_det:
  assumes "\<forall>ch. P ch \<longrightarrow> \<not> Q ch" "needs Q b"
  shows "run (Seq (Cap i (StarC P)) b) (c, s)
         = run b (c(i \<mapsto> takeWhile P s), dropWhile P s)"
proof -
  from runs_split [of P s] obtain xs where
    xs: "runs P s = dropWhile P s # xs" "\<forall>x\<in>set xs. x \<noteq> [] \<and> P (hd x)" by blast
  have "\<forall>x\<in>set xs. run b (c(i \<mapsto> take (length s - length x) s), x) = []"
    using xs(2) assms by (auto simp: needs_def)
  then have "concat (map (\<lambda>x. run b (c(i \<mapsto> take (length s - length x) s), x)) xs) = []"
    by (rule concat_fail)
  with xs(1) show ?thesis by (simp add: comp_def take_takeWhile)
qed

lemma seq_lit: "run (Seq (Lit l) b) (c, s) = (case lit l s of None \<Rightarrow> [] | Some r \<Rightarrow> run b (c, r))"
  by (simp add: lit_def)

lemma concat_map_concat:
  "concat (map f (concat (map g xs))) = concat (map (\<lambda>x. concat (map f (g x))) xs)"
  by (induction xs) auto

lemma seq_assoc: "run (Seq (Seq a b) d) st = run (Seq a (Seq b d)) st"
proof -
  have "run (Seq b d) = (\<lambda>x. concat (map (run d) (run b x)))" by (rule ext) simp
  then show ?thesis by (simp add: concat_map_concat)
qed

lemma seq_cong:
  assumes "\<And>st. run b st = run b' st"
  shows "run (Seq a b) st = run (Seq a b') st"
proof -
  from assms have "run b = run b'" by (rule ext)
  then show ?thesis by simp
qed

lemma seq_assoc2: "run (Seq a (Seq (Seq b d) e)) st = run (Seq a (Seq b (Seq d e))) st"
  by (rule seq_cong) (rule seq_assoc)

lemma seq_assoc3:
  "run (Seq a (Seq b (Seq (Seq d e) f))) st = run (Seq a (Seq b (Seq d (Seq e f)))) st"
  by (rule seq_cong) (rule seq_assoc2)

lemma needs_Lit:
  assumes "l \<noteq> []" "Q (hd l)"
  shows "needs Q (Lit l)"
  unfolding needs_def
proof (intro allI impI)
  fix c s assume h: "s = [] \<or> \<not> Q (hd s)"
  have "take (length l) s \<noteq> l"
  proof
    assume e: "take (length l) s = l"
    with assms(1) have "s \<noteq> []" by auto
    with e assms(1) have "hd l = hd s" by (cases s; cases l) auto
    with h \<open>s \<noteq> []\<close> assms(2) show False by simp
  qed
  then show "run (Lit l) (c, s) = []" by simp
qed

lemma needs_Seq: "needs Q a \<Longrightarrow> needs Q (Seq a b)"
  by (simp add: needs_def)

lemma needs_Cap: "needs Q a \<Longrightarrow> needs Q (Cap i a)"
  by (simp add: needs_def)

lemma needs_Alt: "needs Q a \<Longrightarrow> needs Q b \<Longrightarrow> needs Q (Alt a b)"
  by (simp add: needs_def)

lemma needs_PlusC: "\<forall>ch. P ch \<longrightarrow> Q ch \<Longrightarrow> needs Q (PlusC P)"
  unfolding needs_def
proof (intro allI impI)
  fix c s assume p: "\<forall>ch. P ch \<longrightarrow> Q ch" and h: "s = [] \<or> \<not> Q (hd s)"
  then have "takeWhile P s = []" by (cases s) auto
  then show "run (PlusC P) (c, s) = []" by (simp add: runs_plus_none)
qed

lemma needs_SeqOpt: "needs Q a \<Longrightarrow> needs Q b \<Longrightarrow> needs Q (Seq (Opt a) b)"
  by (simp add: needs_def)

lemma needs_SeqStar:
  assumes "\<forall>ch. P ch \<longrightarrow> Q ch" "needs Q b"
  shows "needs Q (Seq (StarC P) b)"
  unfolding needs_def
proof (intro allI impI)
  fix c s assume h: "s = [] \<or> \<not> Q (hd s)"
  with assms(1) have r: "runs P s = [s]" by (cases s) auto
  from assms(2) h have "run b (c, s) = []" unfolding needs_def by blast
  with r show "run (Seq (StarC P) b) (c, s) = []" by simp
qed

lemma run_Seq: "run (Seq a b) st = concat (map (run b) (run a st))"
  by simp

lemma run_Opt_Seq: "run (Seq (Opt a) b) st = run (Seq a b) st @ run b st"
  by simp

lemma run_Cap_Alt: "run (Cap i (Alt a b)) st = run (Cap i a) st @ run (Cap i b) st"
  by (cases st) simp

lemma run_Lit: "run (Lit l) (c, s) = (case lit l s of None \<Rightarrow> [] | Some r \<Rightarrow> [(c, r)])"
  by (simp add: lit_def)

lemma run_Cap_Lit:
  "run (Cap i (Lit l)) (c, s) = (case lit l s of None \<Rightarrow> [] | Some r \<Rightarrow> [(c(i \<mapsto> l), r)])"
proof (cases "lit l s")
  case None
  then show ?thesis by (simp add: lit_def split: if_splits)
next
  case (Some r)
  then have "s = l @ r" by (simp add: lit_shape)
  with Some show ?thesis by simp
qed

lemma run_Look:
  "run (Look a) (c, s) = (case run a (c, s) of [] \<Rightarrow> [] | (c', r) # rest \<Rightarrow> [(c', s)])"
  by (simp split: list.splits)

declare run.simps [simp del]

lemma run_spacesThen:
  assumes "\<not> isSpace d"
  shows "run (Seq (StarC isSpace) (Lit [d])) (c, s)
         = (case spacesThen [d] s of None \<Rightarrow> [] | Some r \<Rightarrow> [(c, r)])"
proof -
  have n: "needs (\<lambda>ch. ch = d) (Lit [d])" by (rule needs_Lit) simp_all
  have d: "\<forall>ch. isSpace ch \<longrightarrow> \<not> ch = d" using assms by auto
  have "run (Seq (StarC isSpace) (Lit [d])) (c, s) = run (Lit [d]) (c, dropWhile isSpace s)"
    by (rule seq_star_det [OF d n])
  also have "\<dots> = (case spacesThen [d] s of None \<Rightarrow> [] | Some r \<Rightarrow> [(c, r)])"
    by (simp add: spacesThen_def run_Lit)
  finally show ?thesis .
qed

lemma needs_spacesThen: "needs (isSpaceOr d) (Seq (StarC isSpace) (Lit [d]))"
  by (rule needs_SeqStar) (auto simp: isSpaceOr_def intro: needs_Lit)

lemma word_not_spaceOr: "\<not> isWord d \<Longrightarrow> \<forall>ch. isWord ch \<longrightarrow> \<not> isSpaceOr d ch"
  using space_not_type word_is_type by (auto simp: isSpaceOr_def)

lemma run_nameTail:
  assumes "\<not> isSpace d" "\<not> isWord d"
  shows "run (Seq (Cap i (PlusC isWord)) (Seq (StarC isSpace) (Lit [d]))) (c, s)
         = (case plus isWord s of
              None \<Rightarrow> []
            | Some (nm, s3) \<Rightarrow>
                (case spacesThen [d] s3 of None \<Rightarrow> [] | Some r \<Rightarrow> [(c(i \<mapsto> nm), r)]))"
proof -
  have "run (Seq (Cap i (PlusC isWord)) (Seq (StarC isSpace) (Lit [d]))) (c, s)
        = (if takeWhile isWord s = [] then []
           else run (Seq (StarC isSpace) (Lit [d])) (c(i \<mapsto> takeWhile isWord s), dropWhile isWord s))"
    by (rule seq_cap_plus_det [OF word_not_spaceOr [OF assms(2)] needs_spacesThen])
  also have "\<dots> = (case plus isWord s of
              None \<Rightarrow> []
            | Some (nm, s3) \<Rightarrow>
                (case spacesThen [d] s3 of None \<Rightarrow> [] | Some r \<Rightarrow> [(c(i \<mapsto> nm), r)]))"
    by (simp only: run_spacesThen [OF assms(1)]) (simp add: plus_def)
  finally show ?thesis .
qed

lemma run_attrTail:
  "run (Seq (Cap 2 (PlusC isTypeChar))
       (Seq (PlusC isSpace)
       (Seq (Cap 3 (PlusC isWord))
       (Seq (StarC isSpace) (Lit '';''))))) (c, s)
   = (case attrTail s of None \<Rightarrow> [] | Some (ty, nm, r) \<Rightarrow> [(c(2 \<mapsto> ty, 3 \<mapsto> nm), r)])"
proof -
  let ?t3 = "Seq (Cap 3 (PlusC isWord)) (Seq (StarC isSpace) (Lit '';''))"
  let ?t2 = "Seq (PlusC isSpace) ?t3"
  have n3: "needs isWord ?t3" by (intro needs_Seq needs_Cap needs_PlusC) simp
  have n2: "needs isSpace ?t2" by (intro needs_Seq needs_PlusC) simp
  have d1: "\<forall>ch. isTypeChar ch \<longrightarrow> \<not> isSpace ch" using space_not_type by blast
  have d2: "\<forall>ch. isSpace ch \<longrightarrow> \<not> isWord ch" using space_not_type word_is_type by blast
  have r3: "\<And>c s. run ?t3 (c, s) = (case plus isWord s of None \<Rightarrow> []
             | Some (nm, s3) \<Rightarrow> (case spacesThen '';'' s3 of None \<Rightarrow> [] | Some r \<Rightarrow> [(c(3 \<mapsto> nm), r)]))"
    using run_nameTail [of "CHR '';''" 3] semicolon_class by simp
  have r2: "\<And>c s. run ?t2 (c, s) = (case plus isSpace s of None \<Rightarrow> [] | Some (w, s2) \<Rightarrow> run ?t3 (c, s2))"
    using seq_plus_det [OF d2 n3] by (simp add: plus_def)
  have "run (Seq (Cap 2 (PlusC isTypeChar)) ?t2) (c, s)
        = (case plus isTypeChar s of None \<Rightarrow> [] | Some (ty, s1) \<Rightarrow> run ?t2 (c(2 \<mapsto> ty), s1))"
    using seq_cap_plus_det [OF d1 n2, of 2 c s] by (simp add: plus_def)
  then show ?thesis
    unfolding r2 r3
    by (simp add: attrTail_def typeAndName_def split: option.splits prod.splits)
qed

lemma keywords_disjoint:
  "lit ''public'' s = Some r \<Longrightarrow> lit ''private'' s = None \<and> lit ''protected'' s = None"
  "lit ''private'' s = Some r \<Longrightarrow> lit ''protected'' s = None"
  by (auto simp: lit_shape lit_None)

lemma run_keywords:
  "run (Cap 1 (Alt (Lit ''public'') (Alt (Lit ''private'') (Lit ''protected'')))) (c, s)
   = (case lit ''public'' s of
        Some r \<Rightarrow> [(c(1 \<mapsto> ''public''), r)]
      | None \<Rightarrow>
          (case lit ''private'' s of
             Some r \<Rightarrow> [(c(1 \<mapsto> ''private''), r)]
           | None \<Rightarrow>
               (case lit ''protected'' s of
                  Some r \<Rightarrow> [(c(1 \<mapsto> ''protected''), r)]
                | None \<Rightarrow> [])))"
  using keywords_disjoint [of s]
  by (auto simp: run_Cap_Alt run_Cap_Lit split: option.splits)

lemma run_modifier_seq:
  assumes "needs isTypeChar t"
  shows "run (Seq modifierRx t) (c, s)
         = (case modifierGroup s of
              None \<Rightarrow> []
            | Some (m, s1) \<Rightarrow> run t (c(1 \<mapsto> modifierStr m), s1))
           @ run t (c, s)"
proof -
  let ?kw = "Cap 1 (Alt (Lit ''public'') (Alt (Lit ''private'') (Lit ''protected'')))"
  have d: "\<forall>ch. isSpace ch \<longrightarrow> \<not> isTypeChar ch" using space_not_type by blast
  have sp: "\<And>c s. run (Seq (PlusC isSpace) t) (c, s)
            = (case plus isSpace s of None \<Rightarrow> [] | Some (w, r) \<Rightarrow> run t (c, r))"
    using seq_plus_det [OF d assms] by (simp add: plus_def)
  have "run (Seq modifierRx t) (c, s)
        = run (Seq (Seq ?kw (PlusC isSpace)) t) (c, s) @ run t (c, s)"
    unfolding modifierRx_def by (rule run_Opt_Seq)
  also have "run (Seq (Seq ?kw (PlusC isSpace)) t) (c, s)
             = run (Seq ?kw (Seq (PlusC isSpace) t)) (c, s)"
    by (rule seq_assoc)
  also have "\<dots> = concat (map (run (Seq (PlusC isSpace) t)) (run ?kw (c, s)))"
    by (rule run_Seq)
  also have "\<dots> = (case modifierGroup s of
              None \<Rightarrow> []
            | Some (m, s1) \<Rightarrow> run t (c(1 \<mapsto> modifierStr m), s1))"
    using keywords_disjoint [of s]
    by (simp only: run_keywords) (auto simp: sp modifierGroup_def split: option.splits)
  finally show ?thesis .
qed

lemma needs_attrTail:
  "needs isTypeChar (Seq (Cap i (PlusC isTypeChar)) t)"
  by (intro needs_Seq needs_Cap needs_PlusC) simp

lemma modifierOf_modifierStr: "m \<noteq> Default \<Longrightarrow> modifierOf (Some (modifierStr m)) = m"
  by (cases m) (simp_all add: modifierOf_def)

lemma modifierOf_None: "modifierOf None = Default"
  by (simp add: modifierOf_def)

text \<open>The three expressions of the parser give the matches computed by longest runs.\<close>

lemma execAttribute_matchAttr: "execAttribute s = matchAttr s"
proof -
  have "run attributeRegex (Map.empty, s)
        = (case modifierGroup s of
             None \<Rightarrow> []
           | Some (m, s1) \<Rightarrow>
               (case attrTail s1 of
                  None \<Rightarrow> []
                | Some (ty, nm, r) \<Rightarrow> [(Map.empty(1 \<mapsto> modifierStr m, 2 \<mapsto> ty, 3 \<mapsto> nm), r)]))
          @ (case attrTail s of
               None \<Rightarrow> []
             | Some (ty, nm, r) \<Rightarrow> [(Map.empty(2 \<mapsto> ty, 3 \<mapsto> nm), r)])"
    unfolding attributeRegex_def
    by (simp only: run_modifier_seq [OF needs_attrTail] run_attrTail)
  then show ?thesis
    using modifierGroup_not_Default [of s]
    by (auto simp: execAttribute_def exec_def matchAttr_def Let_def modifierOf_modifierStr
        modifierOf_None split: option.splits prod.splits list.splits)
qed

lemma run_spacesThen_seq:
  assumes "\<not> isSpace d"
  shows "run (Seq (StarC isSpace) (Seq (Lit [d]) b)) (c, s)
         = (case spacesThen [d] s of None \<Rightarrow> [] | Some r \<Rightarrow> run b (c, r))"
proof -
  have "needs (\<lambda>ch. ch = d) (Seq (Lit [d]) b)" by (intro needs_Seq needs_Lit) simp_all
  from seq_star_det [of isSpace "\<lambda>ch. ch = d", OF _ this] assms
  show ?thesis by (auto simp: spacesThen_def seq_lit)
qed

lemma needs_spacesThen_seq: "needs (isSpaceOr d) (Seq (StarC isSpace) (Seq (Lit [d]) b))"
proof (rule needs_SeqStar)
  show "\<forall>ch. isSpace ch \<longrightarrow> isSpaceOr d ch" by (simp add: isSpaceOr_def)
  show "needs (isSpaceOr d) (Seq (Lit [d]) b)"
    by (intro needs_Seq needs_Lit) (simp_all add: isSpaceOr_def)
qed

lemma run_methodTail:
  "run (Seq (Cap 2 (PlusC isTypeChar))
       (Seq (PlusC isSpace)
       (Seq (Cap 3 (PlusC isWord))
       (Seq (StarC isSpace)
       (Seq (Lit ''('')
       (Seq (Cap 4 (StarC (\<lambda>c. c \<noteq> CHR '')'')))
       (Seq (Lit '')'')
            (Look (Seq (StarC isSpace) (Lit ''{'')))))))))) (c, s)
   = (case methodTail s of
        None \<Rightarrow> []
      | Some (ty, nm, ps, r) \<Rightarrow> [(c(2 \<mapsto> ty, 3 \<mapsto> nm, 4 \<mapsto> ps), r)])"
proof -
  let ?look = "Look (Seq (StarC isSpace) (Lit ''{''))"
  let ?t6 = "Seq (Lit '')'') ?look"
  let ?t5 = "Seq (Cap 4 (StarC (\<lambda>c. c \<noteq> CHR '')''))) ?t6"
  let ?t4 = "Seq (StarC isSpace) (Seq (Lit ''('') ?t5)"
  let ?t3 = "Seq (Cap 3 (PlusC isWord)) ?t4"
  let ?t2 = "Seq (PlusC isSpace) ?t3"
  have r6: "\<And>c s. run ?t6 (c, s)
            = (case lit '')'' s of None \<Rightarrow> []
               | Some s5 \<Rightarrow> (case spacesThen ''{'' s5 of None \<Rightarrow> [] | Some _ \<Rightarrow> [(c, s5)]))"
    by (simp add: seq_lit run_Look run_spacesThen [OF paren_class(3)] split: option.splits)
  have n6: "needs (\<lambda>ch. ch = CHR '')'') ?t6" by (intro needs_Seq needs_Lit) simp_all
  have r5: "\<And>c s. run ?t5 (c, s)
            = run ?t6 (c(4 \<mapsto> takeWhile (\<lambda>c. c \<noteq> CHR '')'') s), dropWhile (\<lambda>c. c \<noteq> CHR '')'') s)"
    using seq_cap_star_det [of "\<lambda>c. c \<noteq> CHR '')''" "\<lambda>ch. ch = CHR '')''", OF _ n6] by simp
  have r4: "\<And>c s. run ?t4 (c, s)
            = (case spacesThen ''('' s of None \<Rightarrow> [] | Some r \<Rightarrow> run ?t5 (c, r))"
    using run_spacesThen_seq [OF paren_class(1)] by simp
  have n4: "needs (isSpaceOr (CHR ''('')) ?t4" using needs_spacesThen_seq [of "CHR ''(''"] by simp
  have r3: "\<And>c s. run ?t3 (c, s)
            = (case plus isWord s of None \<Rightarrow> [] | Some (nm, s3) \<Rightarrow> run ?t4 (c(3 \<mapsto> nm), s3))"
    using seq_cap_plus_det [OF word_not_spaceOr [OF paren_class(2)] n4] by (simp add: plus_def)
  have n3: "needs isWord ?t3" by (intro needs_Seq needs_Cap needs_PlusC) simp
  have n2: "needs isSpace ?t2" by (intro needs_Seq needs_PlusC) simp
  have d1: "\<forall>ch. isTypeChar ch \<longrightarrow> \<not> isSpace ch" using space_not_type by blast
  have d2: "\<forall>ch. isSpace ch \<longrightarrow> \<not> isWord ch" using space_not_type word_is_type by blast
  have r2: "\<And>c s. run ?t2 (c, s) = (case plus isSpace s of None \<Rightarrow> [] | Some (w, s2) \<Rightarrow> run ?t3 (c, s2))"
    using seq_plus_det [OF d2 n3] by (simp add: plus_def)
  have "run (Seq (Cap 2 (PlusC isTypeChar)) ?t2) (c, s)
        = (case plus isTypeChar s of None \<Rightarrow> [] | Some (ty, s1) \<Rightarrow> run ?t2 (c(2 \<mapsto> ty), s1))"
    using seq_cap_plus_det [OF d1 n2, of 2 c s] by (simp add: plus_def)
  then show ?thesis
    unfolding r2 r3 r4 r5 r6
    by (simp add: methodTail_def typeAndName_def split: option.splits prod.splits)
qed

lemma execMethod_matchMethod: "execMethod s = matchMethod s"
proof -
  have "run methodRegex (Map.empty, s)
        = (case modifierGroup s of
             None \<Rightarrow> []
           | Some (m, s1) \<Rightarrow>
               (case methodTail s1 of
                  None \<Rightarrow> []
                | Some (ty, nm, ps, r) \<Rightarrow>
                    [(Map.empty(1 \<mapsto> modifierStr m, 2 \<mapsto> ty, 3 \<mapsto> nm, 4 \<mapsto> ps), r)]))
          @ (case methodTail s of
               None \<Rightarrow> []
             | Some (ty, nm, ps, r) \<Rightarrow> [(Map.empty(2 \<mapsto> ty, 3 \<mapsto> nm, 4 \<mapsto> ps), r)])"
    unfolding methodRegex_def
    by (simp only: run_modifier_seq [OF needs_attrTail] run_methodTail)
  then show ?thesis
    using modifierGroup_not_Default [of s]
    by (auto simp: execMethod_def exec_def matchMethod_def Let_def modifierOf_modifierStr
        modifierOf_None split: option.splits prod.splits list.splits)
qed

lemma run_extendsGroup:
  "run (Seq (Seq (PlusC isSpace)
            (Seq (Lit ''extends'')
            (Seq (PlusC isSpace) (Cap 2 (PlusC isWord)))))
       (Seq (StarC isSpace) (Lit ''{''))) (c, s)
   = (case extendsGroup s of
        None \<Rightarrow> []
      | Some (ext, s4) \<Rightarrow>
          (case spacesThen ''{'' s4 of None \<Rightarrow> [] | Some r \<Rightarrow> [(c(2 \<mapsto> ext), r)]))"
proof -
  let ?t = "Seq (StarC isSpace) (Lit ''{'')"
  let ?g4 = "Seq (Cap 2 (PlusC isWord)) ?t"
  let ?g3 = "Seq (PlusC isSpace) ?g4"
  let ?g2 = "Seq (Lit ''extends'') ?g3"
  have a1: "run (Seq (Seq (PlusC isSpace)
            (Seq (Lit ''extends'')
            (Seq (PlusC isSpace) (Cap 2 (PlusC isWord))))) ?t) (c, s)
          = run (Seq (PlusC isSpace) ?g2) (c, s)"
    by (simp only: seq_assoc seq_assoc2 seq_assoc3)
  have d2: "\<forall>ch. isSpace ch \<longrightarrow> \<not> isWord ch" using space_not_type word_is_type by blast
  have r4: "\<And>c s. run ?g4 (c, s)
            = (case plus isWord s of None \<Rightarrow> []
               | Some (nm, s3) \<Rightarrow>
                   (case spacesThen ''{'' s3 of None \<Rightarrow> [] | Some r \<Rightarrow> [(c(2 \<mapsto> nm), r)]))"
    using run_nameTail [OF paren_class(3,4), of 2] by simp
  have n4: "needs isWord ?g4" by (intro needs_Seq needs_Cap needs_PlusC) simp
  have r3: "\<And>c s. run ?g3 (c, s) = (case plus isSpace s of None \<Rightarrow> [] | Some (w, s2) \<Rightarrow> run ?g4 (c, s2))"
    using seq_plus_det [OF d2 n4] by (simp add: plus_def)
  have r2: "\<And>c s. run ?g2 (c, s) = (case lit ''extends'' s of None \<Rightarrow> [] | Some r \<Rightarrow> run ?g3 (c, r))"
    by (rule seq_lit)
  have n2: "needs (\<lambda>ch. ch = CHR ''e'') ?g2" by (intro needs_Seq needs_Lit) simp_all
  have d1: "\<forall>ch. isSpace ch \<longrightarrow> \<not> ch = CHR ''e''" by (auto simp: isSpace_def)
  have r1: "run (Seq (PlusC isSpace) ?g2) (c, s)
            = (case plus isSpace s of None \<Rightarrow> [] | Some (w, s1) \<Rightarrow> run ?g2 (c, s1))"
    using seq_plus_det [OF d1 n2] by (simp add: plus_def)
  show ?thesis
    unfolding a1 r1 r2 r3 r4
    by (simp add: extendsGroup_def split: option.splits prod.splits)
qed

lemma execClass_matchClassHeader: "execClass s = matchClassHeader s"
proof -
  let ?t = "Seq (StarC isSpace) (Lit ''{'')"
  let ?g = "Seq (PlusC isSpace) (Seq (Lit ''extends'') (Seq (PlusC isSpace) (Cap 2 (PlusC isWord))))"
  let ?r3 = "Seq (Opt ?g) ?t"
  let ?r2 = "Seq (Cap 1 (PlusC isWord)) ?r3"
  have r3: "\<And>c s. run ?r3 (c, s)
            = (case extendsGroup s of
                 None \<Rightarrow> []
               | Some (ext, s4) \<Rightarrow>
                   (case spacesThen ''{'' s4 of None \<Rightarrow> [] | Some r \<Rightarrow> [(c(2 \<mapsto> ext), r)]))
              @ (case spacesThen ''{'' s of None \<Rightarrow> [] | Some r \<Rightarrow> [(c, r)])"
  proof -
    fix c s
    have "run ?r3 (c, s) = run (Seq ?g ?t) (c, s) @ run ?t (c, s)" by (rule run_Opt_Seq)
    then show "run ?r3 (c, s)
            = (case extendsGroup s of
                 None \<Rightarrow> []
               | Some (ext, s4) \<Rightarrow>
                   (case spacesThen ''{'' s4 of None \<Rightarrow> [] | Some r \<Rightarrow> [(c(2 \<mapsto> ext), r)]))
              @ (case spacesThen ''{'' s of None \<Rightarrow> [] | Some r \<Rightarrow> [(c, r)])"
      using run_spacesThen [OF paren_class(3), of c s]
      by (simp only: run_extendsGroup)
  qed
  have n3: "needs (isSpaceOr (CHR ''{'')) ?r3"
    by (intro needs_SeqOpt needs_Seq needs_PlusC needs_spacesThen [of "CHR ''{''", simplified])
      (simp add: isSpaceOr_def)
  have r2: "\<And>c s. run ?r2 (c, s)
            = (case plus isWord s of None \<Rightarrow> [] | Some (nm, s3) \<Rightarrow> run ?r3 (c(1 \<mapsto> nm), s3))"
    using seq_cap_plus_det [OF word_not_spaceOr [OF paren_class(4)] n3] by (simp add: plus_def)
  have n2: "needs isWord ?r2" by (intro needs_Seq needs_Cap needs_PlusC) simp
  have d2: "\<forall>ch. isSpace ch \<longrightarrow> \<not> isWord ch" using space_not_type word_is_type by blast
  have r1: "\<And>c s. run (Seq (PlusC isSpace) ?r2) (c, s)
            = (case plus isSpace s of None \<Rightarrow> [] | Some (w, s2) \<Rightarrow> run ?r2 (c, s2))"
    using seq_plus_det [OF d2 n2] by (simp add: plus_def)
  have "run classRegex (Map.empty, s)
        = (case lit ''class'' s of None \<Rightarrow> [] | Some s1 \<Rightarrow> run (Seq (PlusC isSpace) ?r2) (Map.empty, s1))"
    unfolding classRegex_def by (rule seq_lit)
  then show ?thesis
    unfolding r1 r2 r3
    by (auto simp: execClass_def exec_def matchClassHeader_def Let_def
        split: option.splits prod.splits list.splits)
qed

declare execAttribute_matchAttr [simp] execMethod_matchMethod [simp] execClass_matchClassHeader [simp]

text \<open>The two expressions of the comment stripper give the two passes.\<close>

lemma run_line_tail:
  "run (Seq (StarC (\<lambda>c. \<not> isLineTerminator c)) Eol) (c, s)
   = [(c, dropWhile (\<lambda>x. \<not> isLineTerminator x) s)]"
proof -
  let ?P = "\<lambda>c. \<not> isLineTerminator c"
  from runs_split [of ?P s] obtain xs where
    xs: "runs ?P s = dropWhile ?P s # xs" "\<forall>x\<in>set xs. x \<noteq> [] \<and> ?P (hd x)" by blast
  have "\<forall>x\<in>set xs. run Eol (c, x) = []" using xs(2) by (auto simp: run.simps)
  then have "concat (map (\<lambda>x. run Eol (c, x)) xs) = []" by (rule concat_fail)
  moreover have "run Eol (c, dropWhile ?P s) = [(c, dropWhile ?P s)]"
    using hd_dropWhile [of ?P s] by (auto simp: run.simps)
  ultimately show ?thesis using xs(1) by (simp add: comp_def run.simps)
qed

lemma exec_lineComment:
  "exec lineComment s
   = (case lit ''//'' s of
        None \<Rightarrow> None
      | Some r \<Rightarrow> Some (Map.empty, dropWhile (\<lambda>x. \<not> isLineTerminator x) r))"
  unfolding lineComment_def exec_def
  by (simp only: seq_lit run_line_tail) (simp split: option.splits)

lemma replaceAll_lineComment: "replaceAll lineComment s = removeLineComments s"
proof (induction s rule: removeLineComments.induct)
  case 1
  show ?case by simp
next
  case (2 c)
  show ?case by (subst replaceAll.simps) (simp add: exec_lineComment lit_two_short)
next
  case (3 c d cs)
  have le: "length (dropWhile (\<lambda>x. \<not> isLineTerminator x) cs) < Suc (Suc (length cs))"
    using length_dropWhile_le [of "\<lambda>x. \<not> isLineTerminator x" cs] by simp
  show ?case
  proof (cases "c = CHR ''/'' \<and> d = CHR ''/''")
    case True
    have "replaceAll lineComment (c # d # cs)
          = replaceAll lineComment (dropWhile (\<lambda>x. \<not> isLineTerminator x) cs)"
      using True le by (subst replaceAll.simps) (simp add: exec_lineComment lit_two)
    with True 3(1) show ?thesis by simp
  next
    case False
    have "replaceAll lineComment (c # d # cs) = c # replaceAll lineComment (d # cs)"
      using False by (subst replaceAll.simps) (auto simp: exec_lineComment lit_two)
    with False 3(2) show ?thesis by auto
  qed
qed

lemma runs_all: "rev (runs (\<lambda>c. True) (a # s)) = (a # s) # rev (runs (\<lambda>c. True) s)"
  by simp

lemma first_close:
  "(case concat (map (\<lambda>x. run (Lit ''*/'') (c, x)) (rev (runs (\<lambda>c. True) s))) of
      [] \<Rightarrow> None | x # _ \<Rightarrow> Some x)
   = map_option (Pair c) (findBlockEnd s)"
proof (induction s rule: findBlockEnd.induct)
  case (1 a b cs)
  have r: "rev (runs (\<lambda>c. True) (a # b # cs))
           = (a # b # cs) # rev (runs (\<lambda>c. True) (b # cs))" by simp
  show ?case
  proof (cases "a = CHR ''*'' \<and> b = CHR ''/''")
    case True
    then show ?thesis unfolding r by (simp add: run_Lit lit_two)
  next
    case False
    then have "run (Lit ''*/'') (c, a # b # cs) = []" by (auto simp: run_Lit lit_two)
    moreover from False have "findBlockEnd (a # b # cs) = findBlockEnd (b # cs)" by auto
    ultimately show ?thesis using 1 False unfolding r by auto
  qed
qed (simp_all add: run_Lit lit_two_short)

lemma exec_blockComment:
  "exec blockComment s
   = (case lit ''/*'' s of
        None \<Rightarrow> None
      | Some r \<Rightarrow> map_option (Pair Map.empty) (findBlockEnd r))"
proof (cases "lit ''/*'' s")
  case None
  then show ?thesis by (simp add: blockComment_def exec_def seq_lit)
next
  case (Some r)
  have "run (Seq (LazyC (\<lambda>c. True)) (Lit ''*/'')) (Map.empty, r)
        = concat (map (\<lambda>x. run (Lit ''*/'') (Map.empty, x)) (rev (runs (\<lambda>c. True) r)))"
    by (simp add: comp_def run.simps)
  with Some first_close [of Map.empty r] show ?thesis
    by (simp add: blockComment_def exec_def seq_lit)
qed

lemma replaceAll_blockComment: "replaceAll blockComment s = removeBlockComments s"
proof (induction s rule: removeBlockComments.induct)
  case 1
  show ?case by simp
next
  case (2 c)
  show ?case by (subst replaceAll.simps) (simp add: exec_blockComment lit_two_short)
next
  case (3 c d cs)
  show ?case
  proof (cases "c = CHR ''/'' \<and> d = CHR ''*''")
    case True
    note op = True
    show ?thesis
    proof (cases "findBlockEnd cs")
      case None
      have "replaceAll blockComment (c # d # cs) = c # replaceAll blockComment (d # cs)"
        using op None by (subst replaceAll.simps) (simp add: exec_blockComment lit_two)
      with op None "3.IH"(1) show ?thesis by simp
    next
      case (Some rest)
      from findBlockEnd_length [OF Some] have "length rest < Suc (Suc (length cs))" by simp
      then have "replaceAll blockComment (c # d # cs) = replaceAll blockComment rest"
        using op Some by (subst replaceAll.simps) (simp add: exec_blockComment lit_two)
      with op Some "3.IH"(2) show ?thesis by simp
    qed
  next
    case False
    have "replaceAll blockComment (c # d # cs) = c # replaceAll blockComment (d # cs)"
      using False by (subst replaceAll.simps) (auto simp: exec_blockComment lit_two)
    with False "3.IH"(3) show ?thesis by auto
  qed
qed

lemma removeComments_passes: "removeComments s = removeBlockComments (removeLineComments s)"
  by (simp add: removeComments_def replaceAll_lineComment replaceAll_blockComment)





subsection \<open>Facts about the parser\<close>

lemma parseJavaAttributes_spaces:
  "\<forall>c\<in>set w. isSpace c \<Longrightarrow> parseJavaAttributes (w @ s) = parseJavaAttributes s"
  by (induction w) (auto simp: matchAttr_space)

lemma prefix_split:
  assumes "pre @ d = k @ r" "length k \<le> length pre"
  shows "\<exists>pre'. pre = k @ pre' \<and> r = pre' @ d"
  using assms by (auto simp: append_eq_append_conv2)

lemma typeAndName_token:
  assumes "token isTypeChar ty" "token isSpace w1" "token isWord nm" "r = [] \<or> \<not> isWord (hd r)"
  shows "typeAndName (ty @ w1 @ nm @ r) = Some (ty, nm, r)"
proof -
  from assms(2) have "isSpace (hd w1)" by (simp add: token_def)
  moreover from assms(3) have "isWord (hd nm)" by (simp add: token_def)
  ultimately have h1: "\<not> isTypeChar (hd (w1 @ nm @ r))" "\<not> isSpace (hd (nm @ r))"
    using assms(2,3) space_not_type [of "hd w1"] space_not_type [of "hd nm"] word_is_type [of "hd nm"]
    by (auto simp: token_def hd_append)
  have "plus isTypeChar (ty @ (w1 @ nm @ r)) = Some (ty, w1 @ nm @ r)"
    using assms(1) h1 by (intro plus_token) (auto simp: token_def)
  moreover have "plus isSpace (w1 @ (nm @ r)) = Some (w1, nm @ r)"
    using assms(2) h1 by (intro plus_token) (auto simp: token_def)
  moreover have "plus isWord (nm @ r) = Some (nm, r)"
    using assms(3,4) by (intro plus_token) (auto simp: token_def)
  ultimately show ?thesis by (simp add: typeAndName_def)
qed

lemma attrTail_token:
  assumes "token isTypeChar ty" "token isSpace w1" "token isWord nm" "spaces w2"
  shows "attrTail (ty @ w1 @ nm @ w2 @ '';'' @ post) = Some (ty, nm, post)"
proof -
  have "w2 @ '';'' @ post = [] \<or> \<not> isWord (hd (w2 @ '';'' @ post))"
    using assms(4) space_not_type word_is_type semicolon_class
    by (cases w2) (auto simp: spaces_def)
  from typeAndName_token [OF assms(1-3) this]
  have "typeAndName (ty @ w1 @ nm @ w2 @ '';'' @ post) = Some (ty, nm, w2 @ '';'' @ post)" .
  moreover have "spacesThen '';'' (w2 @ '';'' @ post) = Some post"
    using assms(4) semicolon_class by (intro spacesThen_token) (auto simp: spaces_def)
  ultimately show ?thesis by (simp add: attrTail_def)
qed

lemma run_unique:
  assumes "a @ r = a' @ r'" "\<forall>c\<in>set a. P c" "r = [] \<or> \<not> P (hd r)"
    "\<forall>c\<in>set a'. P c" "r' = [] \<or> \<not> P (hd r')"
  shows "a = a' \<and> r = r'"
proof -
  have "takeWhile P (a @ r) = a" "dropWhile P (a @ r) = r" using assms(2,3)
    by (cases r; auto simp: takeWhile_append2 dropWhile_append2)+
  moreover have "takeWhile P (a' @ r') = a'" "dropWhile P (a' @ r') = r'" using assms(4,5)
    by (cases r'; auto simp: takeWhile_append2 dropWhile_append2)+
  ultimately show ?thesis using assms(1) by simp
qed

lemma modifierGroup_token:
  assumes "m \<noteq> Default" "token isSpace wm" "x = [] \<or> \<not> isSpace (hd x)"
  shows "modifierGroup (modifierStr m @ wm @ x) = Some (m, x)"
proof -
  have p: "plus isSpace (wm @ x) = Some (wm, x)"
    using assms(2,3) by (intro plus_token) (auto simp: token_def)
  show ?thesis
  proof (cases m)
    case Public
    have "lit ''public'' (''public'' @ wm @ x) = Some (wm @ x)" by (simp add: lit_shape)
    with p Public show ?thesis by (simp add: modifierGroup_def)
  next
    case Private
    have "lit ''public'' (''private'' @ wm @ x) = None" by (simp add: lit_def)
    moreover have "lit ''private'' (''private'' @ wm @ x) = Some (wm @ x)" by (simp add: lit_shape)
    ultimately show ?thesis using p Private by (simp add: modifierGroup_def)
  next
    case Protected
    have "lit ''public'' (''protected'' @ wm @ x) = None" by (simp add: lit_def)
    moreover have "lit ''private'' (''protected'' @ wm @ x) = None" by (simp add: lit_def)
    moreover have "lit ''protected'' (''protected'' @ wm @ x) = Some (wm @ x)" by (simp add: lit_shape)
    ultimately show ?thesis using p Protected by (simp add: modifierGroup_def)
  next
    case Default
    with assms(1) show ?thesis by simp
  qed
qed

lemma keyword_as_type:
  assumes tk: "token isTypeChar ty" "token isSpace w1" "token isWord nm" "spaces w2"
    and mg: "modifierGroup (ty @ w1 @ nm @ w2 @ '';'' @ post) = Some (m', s1)"
  shows "attrTail s1 = None"
proof -
  let ?rest = "w2 @ '';'' @ post"
  from modifierGroup_cases [OF mg] obtain w where
    w: "ty @ w1 @ nm @ ?rest = modifierStr m' @ w @ s1" "w \<noteq> []" "\<forall>c\<in>set w. isSpace c"
       "s1 = [] \<or> \<not> isSpace (hd s1)" by blast
  from tk(2) have "isSpace (hd w1)" by (simp add: token_def)
  then have h1: "\<not> isTypeChar (hd (w1 @ nm @ ?rest))"
    using tk(2) space_not_type by (auto simp: token_def hd_append)
  from w(2,3) have "isSpace (hd w)" by simp
  then have h2: "\<not> isTypeChar (hd (w @ s1))"
    using w(2) space_not_type by (auto simp: hd_append)
  from run_unique [of ty "w1 @ nm @ ?rest" "modifierStr m'" "w @ s1" isTypeChar]
    w(1) tk(1) h1 h2 modifierStr_word [of m']
  have e1: "w1 @ nm @ ?rest = w @ s1" by (auto simp: token_def)
  from tk(3) have "isWord (hd nm)" by (simp add: token_def)
  then have h3: "\<not> isSpace (hd (nm @ ?rest))"
    using tk(3) space_not_type [of "hd nm"] word_is_type [of "hd nm"] by (auto simp: token_def hd_append)
  from run_unique [of w1 "nm @ ?rest" w s1 isSpace] e1 tk(2) h3 w(3,4)
  have s1: "s1 = nm @ ?rest" by (auto simp: token_def)
  have h4: "?rest = [] \<or> \<not> isTypeChar (hd ?rest)"
    using tk(4) space_not_type semicolon_class by (cases w2) (auto simp: spaces_def)
  have p1: "plus isTypeChar (nm @ ?rest) = Some (nm, ?rest)"
    using tk(3) h4 word_is_type by (intro plus_token) (auto simp: token_def)
  have "typeAndName (nm @ ?rest) = None"
  proof (cases w2)
    case Nil
    then have "plus isSpace ?rest = None" using semicolon_class by (simp add: plus_def)
    with p1 show ?thesis by (simp add: typeAndName_def)
  next
    case (Cons c cs)
    have "plus isSpace (w2 @ ('';'' @ post)) = Some (w2, '';'' @ post)"
      using tk(4) Cons semicolon_class by (intro plus_token) (auto simp: spaces_def)
    moreover have "plus isWord ('';'' @ post) = None" using semicolon_class by (simp add: plus_def)
    ultimately show ?thesis using p1 by (simp add: typeAndName_def)
  qed
  with s1 show ?thesis by (simp add: attrTail_def)
qed

lemma matchAttr_decl:
  assumes tk: "token isTypeChar ty" "token isSpace w1" "token isWord nm" "spaces w2"
    and md: "m \<noteq> Default \<longrightarrow> token isSpace wm"
  shows "matchAttr (declText m wm ty w1 nm w2 @ post) = Some (m, ty, nm, post)"
proof (cases "m = Default")
  case True
  have at: "attrTail (ty @ w1 @ nm @ w2 @ '';'' @ post) = Some (ty, nm, post)"
    by (rule attrTail_token [OF tk])
  show ?thesis
  proof (cases "modifierGroup (ty @ w1 @ nm @ w2 @ '';'' @ post)")
    case None
    with at True show ?thesis by (simp add: matchAttr_def declText_def)
  next
    case (Some t)
    then obtain m' s1 where mg: "modifierGroup (ty @ w1 @ nm @ w2 @ '';'' @ post) = Some (m', s1)"
      by (cases t) auto
    from keyword_as_type [OF tk mg] at mg True show ?thesis
      by (simp add: matchAttr_def declText_def)
  qed
next
  case False
  let ?x = "ty @ w1 @ nm @ w2 @ '';'' @ post"
  from tk(1) have "isTypeChar (hd ty)" by (simp add: token_def)
  then have "\<not> isSpace (hd ?x)" using tk(1) space_not_type [of "hd ty"]
    by (auto simp: token_def hd_append)
  with False md have "modifierGroup (modifierStr m @ wm @ ?x) = Some (m, ?x)"
    by (intro modifierGroup_token) simp_all
  moreover have "attrTail ?x = Some (ty, nm, post)" by (rule attrTail_token [OF tk])
  ultimately show ?thesis using False by (simp add: matchAttr_def declText_def)
qed

lemma parseJavaAttributes_no_return: "\<forall>r\<in>set (parseJavaAttributes s). attrType r \<noteq> ''return''"
  by (induction s rule: parseJavaAttributes.induct) (auto split: option.splits)

lemma extractLoop_concat:
  "extractLoop ms (cls, console)
   = (let (c, l) = extractLoop ms ([], []) in (cls @ c, console @ l))"
proof (induction ms arbitrary: cls console)
  case Nil
  show ?case by simp
next
  case (Cons mt ms)
  obtain name ext rest where mt: "mt = (name, ext, rest)" by (cases mt) auto
  show ?case
  proof (cases "findClose 1 rest")
    case None
    from Cons [of cls "console @ [unmatchedBraces name]"] Cons [of "[]" "[unmatchedBraces name]"]
    show ?thesis using mt None by (simp add: split_beta Let_def)
  next
    case (Some b)
    from Cons [of "cls @ [\<lparr>declName = name, extendsFrom = ext, body = trim b\<rparr>]" console]
      Cons [of "[\<lparr>declName = name, extendsFrom = ext, body = trim b\<rparr>]" "[]"]
    show ?thesis using mt Some by (simp add: split_beta Let_def)
  qed
qed

lemma extractLoop_matches:
  "map declClass (fst (extractLoop ms ([], []))) = concat (map matchClass ms)
   \<and> snd (extractLoop ms ([], [])) = concat (map matchConsole ms)"
proof (induction ms)
  case Nil
  show ?case by simp
next
  case (Cons mt ms)
  obtain name ext rest where mt: "mt = (name, ext, rest)" by (cases mt) auto
  show ?case
  proof (cases "findClose 1 rest")
    case None
    with Cons mt extractLoop_concat [of ms "[]" "[unmatchedBraces name]"] show ?thesis
      by (simp add: split_beta Let_def matchClass_def matchConsole_def)
  next
    case (Some b)
    with Cons mt extractLoop_concat [of ms "[\<lparr>declName = name, extendsFrom = ext, body = trim b\<rparr>]" "[]"]
    show ?thesis
      by (simp add: split_beta Let_def matchClass_def matchConsole_def declClass_def)
  qed
qed

lemma parseJavaClasses_matches:
  "classes (fst (parseJavaClasses src)) = concat (map matchClass (classMatches src))
   \<and> snd (parseJavaClasses src) = concat (map matchConsole (classMatches src))
   \<and> errors (fst (parseJavaClasses src))
       = (if concat (map matchClass (classMatches src)) = []
          then [''No class declarations found.''] else [])"
proof -
  obtain cls console where e: "extractLoop (classMatches src) ([], []) = (cls, console)"
    by (cases "extractLoop (classMatches src) ([], [])") auto
  from extractLoop_matches [of "classMatches src"] e
  have m: "map declClass cls = concat (map matchClass (classMatches src))"
    "console = concat (map matchConsole (classMatches src))" by simp_all
  have d: "map (\<lambda>classDecl. \<lparr>className = declName classDecl, classExtends = extendsFrom classDecl,
                 attributes = parseJavaAttributes (body classDecl),
                 methods = parseJavaMethods (body classDecl)\<rparr>) cls = map declClass cls"
    by (simp add: declClass_def)
  show ?thesis
  proof (cases "cls = []")
    case True
    with m e show ?thesis by (simp add: parseJavaClasses_def extractClassBodies_def)
  next
    case False
    then have "map declClass cls \<noteq> []" by simp
    with m e d False show ?thesis
      by (simp add: parseJavaClasses_def extractClassBodies_def)
  qed
qed

lemma toks_spaces: "\<forall>c\<in>set a. isSpace c \<Longrightarrow> toks (a @ s) = toks s"
proof -
  assume "\<forall>c\<in>set a. isSpace c"
  then have "dropWhile isSpace (a @ s) = dropWhile isSpace s"
    by (simp add: dropWhile_append)
  then show ?thesis by (simp add: toks.simps [of "a @ s"] toks.simps [of s])
qed

lemma toks_token:
  assumes "token isTypeChar a" "s = [] \<or> \<not> isTypeChar (hd s)"
  shows "toks (a @ s) = a # toks s"
proof -
  from assms(1) have ns: "\<not> isSpace (hd a)" "a \<noteq> []"
    using space_not_type [of "hd a"] by (auto simp: token_def)
  then have d: "dropWhile isSpace (a @ s) = a @ s" by (cases a) auto
  have "takeWhile isTypeChar (a @ s) = a" "dropWhile isTypeChar (a @ s) = s"
    using assms by (cases s; auto simp: token_def takeWhile_append2 dropWhile_append2)+
  with d ns show ?thesis by (simp add: toks.simps [of "a @ s"])
qed

lemma toks_stop: "s = [] \<or> (\<not> isTypeChar (hd s) \<and> \<not> isSpace (hd s)) \<Longrightarrow> toks s = []"
  by (subst toks.simps) (cases s; simp)

lemma run_split: "\<exists>a r. s = a @ r \<and> (\<forall>c\<in>set a. P c) \<and> (r = [] \<or> \<not> P (hd r))"
proof (intro exI conjI)
  show "s = takeWhile P s @ dropWhile P s" by simp
  show "\<forall>c\<in>set (takeWhile P s). P c" by (auto dest: set_takeWhileD)
  show "dropWhile P s = [] \<or> \<not> P (hd (dropWhile P s))" using hd_dropWhile [of P s] by auto
qed

lemma toks_append:
  "\<forall>c\<in>set q. isTypeChar c \<or> isSpace c \<Longrightarrow> q = [] \<or> isSpace (last q)
     \<Longrightarrow> toks (q @ s) = toks q @ toks s"
proof (induction "length q" arbitrary: q rule: less_induct)
  case less
  from run_split [of q isSpace] obtain sp q1 where
    q: "q = sp @ q1" and sp: "\<forall>c\<in>set sp. isSpace c" and hd1: "q1 = [] \<or> \<not> isSpace (hd q1)"
    by blast
  show ?case
  proof (cases "q1 = []")
    case True
    with q sp have "\<forall>c\<in>set q. isSpace c" by simp
    then have "toks (q @ s) = toks s" "toks (q @ []) = toks []"
      by (rule toks_spaces)+
    then show ?thesis by (simp add: toks_stop)
  next
    case False
    from run_split [of q1 isTypeChar] obtain a q2 where
      q1: "q1 = a @ q2" and a: "\<forall>c\<in>set a. isTypeChar c" and hd2: "q2 = [] \<or> \<not> isTypeChar (hd q2)"
      by blast
    from False hd1 have ns: "\<not> isSpace (hd q1)" by simp
    have "hd q1 \<in> set q" using False q by simp
    with less.prems(1) ns have ty1: "isTypeChar (hd q1)" by auto
    have ane: "a \<noteq> []"
    proof
      assume "a = []"
      with q1 False hd2 ty1 show False by simp
    qed
    with a have tok: "token isTypeChar a" by (simp add: token_def)
    have lastq: "isSpace (last q)" using less.prems(2) False q by auto
    have q2ne: "q2 \<noteq> []"
    proof
      assume "q2 = []"
      with q q1 ane have "last q = last a" by simp
      moreover have "last a \<in> set a" using ane by simp
      ultimately have "isTypeChar (last q)" using a by simp
      with lastq space_not_type show False by auto
    qed
    have last2: "last q2 = last q" using q2ne q q1 by simp
    have len2: "length q2 < length q" using q q1 ane by simp
    have sub2: "\<forall>c\<in>set q2. isTypeChar c \<or> isSpace c" using less.prems(1) q q1 by simp
    have ih: "toks (q2 @ s) = toks q2 @ toks s"
      using less.hyps [OF len2 sub2] last2 lastq by simp
    have nt: "q2 @ s = [] \<or> \<not> isTypeChar (hd (q2 @ s))" using q2ne hd2 by (simp add: hd_append)
    have "toks (q @ s) = toks (sp @ (a @ (q2 @ s)))" using q q1 by simp
    also have "\<dots> = toks (a @ (q2 @ s))" by (rule toks_spaces [OF sp])
    also have "\<dots> = a # toks (q2 @ s)" by (rule toks_token [OF tok nt])
    also have "\<dots> = (a # toks q2) @ toks s" using ih by simp
    finally have l: "toks (q @ s) = (a # toks q2) @ toks s" .
    have "toks q = toks (sp @ (a @ q2))" using q q1 by simp
    also have "\<dots> = toks (a @ q2)" by (rule toks_spaces [OF sp])
    also have "\<dots> = a # toks q2" by (rule toks_token [OF tok hd2])
    finally show ?thesis using l by simp
  qed
qed

lemma toks_Nil_spaces:
  assumes "\<forall>c\<in>set q. isTypeChar c \<or> isSpace c" "toks q = []"
  shows "\<forall>c\<in>set q. isSpace c"
proof -
  from run_split [of q isSpace] obtain sp q1 where
    q: "q = sp @ q1" and sp: "\<forall>c\<in>set sp. isSpace c" and hd1: "q1 = [] \<or> \<not> isSpace (hd q1)"
    by blast
  have "q1 = []"
  proof (rule ccontr)
    assume ne: "q1 \<noteq> []"
    with hd1 have "\<not> isSpace (hd q1)" by simp
    moreover have "hd q1 \<in> set q" using ne q by simp
    ultimately have ty: "isTypeChar (hd q1)" using assms(1) by auto
    have "toks q = toks q1" using toks_spaces [OF sp, of q1] q by simp
    moreover have "takeWhile isTypeChar (dropWhile isSpace q1) \<noteq> []"
      using ne ty \<open>\<not> isSpace (hd q1)\<close> by (cases q1) auto
    ultimately show False using assms(2) by (simp add: toks.simps [of q1])
  qed
  with q sp show ?thesis by simp
qed

lemma attrTail_exact:
  assumes "attrTail s = Some (ty, nm, r)"
  shows "\<exists>w w'. s = ty @ w @ nm @ w' @ '';'' @ r \<and> token isTypeChar ty \<and> token isSpace w
            \<and> token isWord nm \<and> spaces w'"
proof -
  from assms obtain s3 where a: "typeAndName s = Some (ty, nm, s3)" "spacesThen '';'' s3 = Some r"
    by (auto simp: attrTail_def split: option.splits prod.splits)
  from typeAndName_shape [OF a(1)] obtain w where
    w: "s = ty @ w @ nm @ s3" "token isTypeChar ty" "token isSpace w" "token isWord nm"
    by (auto simp: token_def)
  from spacesThen_shape [OF a(2)] obtain w' where w': "s3 = w' @ '';'' @ r" "spaces w'"
    by (auto simp: spaces_def)
  from w w' show ?thesis by auto
qed

lemma toks_tail:
  assumes "token isTypeChar ty" "token isSpace w" "token isWord nm" "spaces w'"
  shows "toks (ty @ w @ nm @ w' @ '';'' @ r) = [ty, nm]"
proof -
  from assms(2) have "isSpace (hd w)" "w \<noteq> []" by (simp_all add: token_def)
  then have n1: "w @ nm @ w' @ '';'' @ r = [] \<or> \<not> isTypeChar (hd (w @ nm @ w' @ '';'' @ r))"
    using space_not_type [of "hd w"] by (simp add: hd_append)
  have n2: "w' @ '';'' @ r = [] \<or> \<not> isTypeChar (hd (w' @ '';'' @ r))"
    using assms(4) space_not_type semicolon_class by (cases w') (auto simp: spaces_def)
  have tn: "token isTypeChar nm" using assms(3) word_is_type by (auto simp: token_def)
  have "toks (ty @ (w @ nm @ w' @ '';'' @ r)) = ty # toks (w @ (nm @ w' @ '';'' @ r))"
    using toks_token [OF assms(1) n1] by simp
  also have "toks (w @ (nm @ w' @ '';'' @ r)) = toks (nm @ (w' @ '';'' @ r))"
    using assms(2) by (intro toks_spaces) (simp add: token_def)
  also have "\<dots> = nm # toks (w' @ ('';'' @ r))" using toks_token [OF tn n2] by simp
  also have "toks (w' @ ('';'' @ r)) = toks ('';'' @ r)"
    using assms(4) by (intro toks_spaces) (simp add: spaces_def)
  also have "\<dots> = []" using semicolon_class by (intro toks_stop) simp
  finally show ?thesis by simp
qed

lemma toks_modifier:
  assumes "m \<noteq> Default" "token isSpace w" "x \<noteq> []" "isTypeChar (hd x)"
  shows "toks (modifierStr m @ w @ x) = modifierStr m # toks x"
proof -
  have tk: "token isTypeChar (modifierStr m)" using modifierStr_word [of m]
    by (cases m) (auto simp: token_def)
  from assms(2) have "isSpace (hd w)" "w \<noteq> []" by (simp_all add: token_def)
  then have n: "w @ x = [] \<or> \<not> isTypeChar (hd (w @ x))"
    using space_not_type [of "hd w"] by (simp add: hd_append)
  have "toks (modifierStr m @ (w @ x)) = modifierStr m # toks (w @ x)"
    by (rule toks_token [OF tk n])
  moreover have "toks (w @ x) = toks x" using assms(2) by (intro toks_spaces) (simp add: token_def)
  ultimately show ?thesis by simp
qed

lemma toks_matchAttr:
  assumes "matchAttr s = Some (m, ty, nm, r)"
  shows "toks s = [ty, nm] \<or> (m \<noteq> Default \<and> toks s = [modifierStr m, ty, nm])"
proof -
  from matchAttr_cases [OF assms] show ?thesis
  proof
    assume "m = Default \<and> attrTail s = Some (ty, nm, r)"
    then have "attrTail s = Some (ty, nm, r)" by simp
    from attrTail_exact [OF this] toks_tail show ?thesis by blast
  next
    assume "\<exists>s1. modifierGroup s = Some (m, s1) \<and> attrTail s1 = Some (ty, nm, r)"
    then obtain s1 where a: "modifierGroup s = Some (m, s1)" "attrTail s1 = Some (ty, nm, r)" by blast
    from modifierGroup_cases [OF a(1)] obtain w where
      w: "m \<noteq> Default" "s = modifierStr m @ w @ s1" "token isSpace w" by (auto simp: token_def)
    from attrTail_exact [OF a(2)] obtain w1 w2 where
      t: "s1 = ty @ w1 @ nm @ w2 @ '';'' @ r" "token isTypeChar ty" "token isSpace w1"
         "token isWord nm" "spaces w2" by blast
    from t(1,2) have "s1 \<noteq> []" "isTypeChar (hd s1)" by (auto simp: token_def)
    from toks_modifier [OF w(1) w(3) this] w(2) toks_tail [OF t(2-5)] t(1) w(1)
    show ?thesis by simp
  qed
qed

lemma toks_declText:
  assumes "token isTypeChar ty" "token isSpace w1" "token isWord nm" "spaces w2"
    and "m \<noteq> Default \<longrightarrow> token isSpace wm"
  shows "toks (declText m wm ty w1 nm w2 @ post)
         = (if m = Default then [ty, nm] else [modifierStr m, ty, nm])"
proof (cases "m = Default")
  case True
  with toks_tail [OF assms(1-4), of post] show ?thesis by (simp add: declText_def)
next
  case False
  let ?x = "ty @ w1 @ nm @ w2 @ '';'' @ post"
  from assms(1) have "?x \<noteq> []" "isTypeChar (hd ?x)" by (auto simp: token_def)
  from toks_modifier [OF False _ this] assms(5) False toks_tail [OF assms(1-4), of post]
  show ?thesis by (simp add: declText_def)
qed

lemma afterModifier_intro:
  assumes "m \<noteq> Default" "token isSpace sp"
  shows "afterModifier (x @ modifierStr m @ sp)"
proof -
  have sp: "\<forall>c\<in>set (rev sp). isSpace c" "sp \<noteq> []" using assms(2) by (simp_all add: token_def)
  have "\<not> isSpace (hd (rev (modifierStr m)))" by (cases m) (simp_all add: isSpace_def)
  moreover have "rev (modifierStr m) \<noteq> []" by (cases m) simp_all
  ultimately have "dropWhile isSpace (rev sp @ (rev (modifierStr m) @ rev x))
                   = rev (modifierStr m) @ rev x"
    using sp(1) by (cases "rev (modifierStr m)") (auto simp: dropWhile_append)
  then have d: "dropWhile isSpace (rev (x @ modifierStr m @ sp)) = rev (modifierStr m) @ rev x"
    by simp
  have "m \<in> {Public, Private, Protected}" using assms(1) by (cases m) auto
  then show ?thesis unfolding afterModifier_def d Let_def using sp(2) by auto
qed

lemma no_cross:
  assumes ma: "matchAttr (q @ declText m wm ty w1 nm w2 @ post) = Some (m', T, N, r)"
    and tk: "token isTypeChar ty" "token isSpace w1" "token isWord nm" "spaces w2"
      "m \<noteq> Default \<longrightarrow> token isSpace wm"
    and q: "q \<noteq> []" "\<not> isTypeChar (last q)"
    and nmod: "m = Default \<longrightarrow> (\<forall>kw sp. kw \<noteq> Default \<and> token isSpace sp \<longrightarrow> q \<noteq> modifierStr kw @ sp)"
  shows "\<exists>x q'. q = x @ q' \<and> x \<noteq> [] \<and> r = q' @ declText m wm ty w1 nm w2 @ post"
proof -
  let ?D = "declText m wm ty w1 nm w2 @ post"
  from matchAttr_shape [OF ma] obtain k where
    k: "q @ ?D = k @ '';'' @ r" "\<forall>c\<in>set k. isTypeChar c \<or> isSpace c" by blast
  show ?thesis
  proof (cases "length k < length q")
    case True
    then have "length (k @ '';'') \<le> length q" by simp
    moreover from k(1) have "q @ ?D = (k @ '';'') @ r" by simp
    ultimately obtain q' where "q = (k @ '';'') @ q'" "r = q' @ ?D"
      using prefix_split by blast
    then show ?thesis by blast
  next
    case False
    then have le: "length q \<le> length k" by simp
    from k(1) have "q @ ?D = k @ ('';'' @ r)" by simp
    then obtain u where "k = q @ u" using le by (auto simp: append_eq_append_conv2)
    with k(2) have qc: "\<forall>c\<in>set q. isTypeChar c \<or> isSpace c" by simp
    with q have lastsp: "isSpace (last q)" using last_in_set [of q] by auto
    have ap: "toks (q @ ?D) = toks q @ toks ?D"
      using qc lastsp by (intro toks_append) simp_all
    have tD: "toks ?D = (if m = Default then [ty, nm] else [modifierStr m, ty, nm])"
      by (rule toks_declText [OF tk])
    have hdq: "\<not> isSpace (hd q)"
    proof
      assume "isSpace (hd q)"
      then have "matchAttr (hd q # (tl q @ ?D)) = None" by (rule matchAttr_space)
      moreover have "hd q # (tl q @ ?D) = q @ ?D" using q(1) by (cases q) simp_all
      ultimately show False using ma by simp
    qed
    have tq: "toks q \<noteq> []"
    proof
      assume "toks q = []"
      from toks_Nil_spaces [OF qc this] q(1) hdq show False by simp
    qed
    from toks_matchAttr [OF ma] ap tD tq
    have c: "m = Default" "m' \<noteq> Default" "toks q = [modifierStr m']"
      by (cases "toks q"; cases "tl (toks q)"; auto split: if_splits)+
    from run_split [of q isTypeChar] obtain a q2 where
      a: "q = a @ q2" "\<forall>c\<in>set a. isTypeChar c" "q2 = [] \<or> \<not> isTypeChar (hd q2)" by blast
    have "hd q \<in> set q" using q(1) by simp
    with qc hdq have "isTypeChar (hd q)" by auto
    with a q(1) have ane: "a \<noteq> []" by (cases a) auto
    with a(2) have tok: "token isTypeChar a" by (simp add: token_def)
    from toks_token [OF tok a(3)] a(1) c(3) have e: "a = modifierStr m'" "toks q2 = []" by simp_all
    have "\<forall>c\<in>set q2. isTypeChar c \<or> isSpace c" using qc a(1) by simp
    from toks_Nil_spaces [OF this e(2)] have sp2: "\<forall>c\<in>set q2. isSpace c" .
    have "q2 \<noteq> []"
    proof
      assume "q2 = []"
      with a(1) ane have "last q = last a" by simp
      moreover have "last a \<in> set a" using ane by simp
      ultimately show False using a(2) q(2) by simp
    qed
    with sp2 have "token isSpace q2" by (simp add: token_def)
    with nmod c(1,2) a(1) e(1) show ?thesis by blast
  qed
qed

lemma scan_reaches_declaration:
  assumes tk: "token isTypeChar ty" "token isSpace w1" "token isWord nm" "spaces w2"
      "m \<noteq> Default \<longrightarrow> token isSpace wm"
    and pre: "pre = [] \<or> \<not> isTypeChar (last pre)" "m = Default \<longrightarrow> \<not> afterModifier pre"
  shows "pre = x @ q \<Longrightarrow>
           set (parseJavaAttributes (declText m wm ty w1 nm w2 @ post))
             \<subseteq> set (parseJavaAttributes (q @ declText m wm ty w1 nm w2 @ post))"
proof (induction "length q" arbitrary: q x rule: less_induct)
  case less
  let ?D = "declText m wm ty w1 nm w2 @ post"
  show ?case
  proof (cases q)
    case Nil
    then show ?thesis by simp
  next
    case (Cons c q1)
    show ?thesis
    proof (cases "matchAttr (q @ ?D)")
      case None
      have "pre = (x @ [c]) @ q1" using less.prems Cons by simp
      from less.hyps [OF _ this] Cons
      have "set (parseJavaAttributes ?D) \<subseteq> set (parseJavaAttributes (q1 @ ?D))" by simp
      with None Cons show ?thesis by simp
    next
      case (Some t)
      then obtain m' T N r where t: "matchAttr (q @ ?D) = Some (m', T, N, r)"
        by (cases t) auto
      have qne: "q \<noteq> []" using Cons by simp
      then have "last q = last pre" "pre \<noteq> []" using less.prems by simp_all
      with pre(1) have lq: "\<not> isTypeChar (last q)" by simp
      have nmod: "m = Default \<longrightarrow>
                  (\<forall>kw sp. kw \<noteq> Default \<and> token isSpace sp \<longrightarrow> q \<noteq> modifierStr kw @ sp)"
      proof (intro impI allI notI)
        fix kw sp assume "m = Default" "kw \<noteq> Default \<and> token isSpace sp" "q = modifierStr kw @ sp"
        then have "afterModifier pre" using less.prems afterModifier_intro [of kw sp x] by simp
        with pre(2) \<open>m = Default\<close> show False by simp
      qed
      from no_cross [OF t tk qne lq nmod] obtain y q' where
        y: "q = y @ q'" "y \<noteq> []" "r = q' @ ?D" by blast
      then have "length q' < length q" "pre = (x @ y) @ q'" using less.prems by simp_all
      from less.hyps [OF this] y(3)
      have "set (parseJavaAttributes ?D) \<subseteq> set (parseJavaAttributes r)" by simp
      with t Cons show ?thesis by auto
    qed
  qed
qed

lemma parse_else_if: "parseJavaMethods ''else if (a | b) { }'' = [elseIf]"
  by code_simp

section \<open>Properties of the comment stripper\<close>

text \<open>
  C7.  Comment stripping is idempotent: stripping the comments of an already stripped text
  changes nothing, \<open>removeComments (removeComments s) = removeComments s\<close> for every
  text \<open>s\<close>.  The first pass leaves no two adjacent slashes, the second pass cannot
  bring two slashes together, since the character before a deleted block comment is never
  a slash, and an opener that the second pass left in place has no closer behind it.
\<close>

theorem removeComments_idempotent:
  "removeComments (removeComments s) = removeComments s"
proof -
  have nd: "noDoubleSlash (removeLineComments s)" by (rule noDoubleSlash_removeLine)
  then have "noDoubleSlash (removeBlockComments (removeLineComments s))"
    by (rule noDoubleSlash_removeBlock)
  then have "removeLineComments (removeBlockComments (removeLineComments s))
             = removeBlockComments (removeLineComments s)"
    by (rule removeLine_id)
  with removeBlock_twice [OF nd] show ?thesis by (simp add: removeComments_passes)
qed




section \<open>Properties of the comparator\<close>

text \<open>
  C1, as the claim states it, fails.  The reference class \<^verbatim>\<open>X\<close> has a public \<^verbatim>\<open>int\<close> and a
  private \<^verbatim>\<open>String\<close> field, the candidate class \<^verbatim>\<open>X\<close> only the public \<^verbatim>\<open>int\<close>: the
  attribute diff has a red entry for the missing \<^verbatim>\<open>private String\<close>, and the node is
  green all the same.
\<close>

theorem node_color_counterexample:
  "compareParsedClasses [classX [pubInt, privString]] [classX [pubInt]] = Some
     [\<lparr>nodeName = ''X'', nodeType = ''class'', nodeColor = ''text-green-500'',
       nodeAttributes =
         [\<lparr>message = ''+ public int (Count: 1)'', color = ''text-green-500'', count = Some 1\<rparr>,
          \<lparr>message = ''- private String'', color = ''text-red-500'', count = None\<rparr>],
       nodeMethods = [], inheritance = None, nodeExtends = None\<rparr>]"
  by (simp add: compareParsedClasses_def classX_def pubInt_def privString_def eval_defs)

text \<open>
  C1, amended.  For every pair of class lists and every class name of \<open>a\<close> that is also
  found in \<open>b\<close>, the comparator emits exactly one node for that name; its colour is red
  (mismatch) exactly when the \<^verbatim>\<open>extends\<close> values of the two classes differ, and green
  (match) otherwise, and it carries an inheritance note exactly in the first case.  The
  attribute and method entries have colours of their own and do not change the colour of
  the node.
\<close>

theorem node_color_inheritance_only:
  assumes "find (\<lambda>c. className c = n) a = Some ac"
    and "find (\<lambda>c. className c = n) b = Some bc"
  shows "\<exists>out nd. compareParsedClasses a b = Some out
           \<and> filter (\<lambda>x. nodeName x = n) out = [nd]
           \<and> nodeColor nd = (if classExtends ac = classExtends bc then green else red)
           \<and> ((inheritance nd = None) = (classExtends ac = classExtends bc))"
proof -
  let ?nd = "compareClass n ac (Some bc)"
  have f1: "filter (\<lambda>x. nodeName x = n) (nodesFor a b (newSet (map className a))) = [?nd]"
    using compare_node [OF assms(1), of b] assms(2) by simp
  have f2: "nodeColor ?nd = (if classExtends ac = classExtends bc then green else red)"
    by (simp add: compareClass_def Let_def)
  have f3: "(inheritance ?nd = None) = (classExtends ac = classExtends bc)"
    by (simp add: compareClass_def Let_def)
  show ?thesis
    by (intro exI conjI; (rule compareParsedClasses_nodes | rule f1 | rule f2 | rule f3))
qed

text \<open>The amended C1 at the classes of the counterexample.\<close>

theorem node_color_inheritance_only_witness:
  "\<exists>out nd. compareParsedClasses [classX [pubInt, privString]] [classX [pubInt]] = Some out
      \<and> filter (\<lambda>x. nodeName x = ''X'') out = [nd] \<and> nodeColor nd = green
      \<and> inheritance nd = None"
  using node_color_inheritance_only [of "''X''" "[classX [pubInt, privString]]"
      "classX [pubInt, privString]" "[classX [pubInt]]" "classX [pubInt]"]
  by (simp add: classX_def)

text \<open>
  C9.  When a class name occurs in \<open>a\<close>, whatever follows its first record \<open>c\<close> in
  \<open>a\<close>, the comparator emits exactly one node for the name, and that node is computed
  from \<open>c\<close> and from the result of looking the name up in \<open>b\<close>, which is the first
  record of that name in \<open>b\<close>.  Later records of the same name in either list play no part.
\<close>

theorem duplicate_names_first_wins:
  assumes "\<forall>x\<in>set pre. className x \<noteq> className c"
  shows "\<exists>out. compareParsedClasses (pre @ c # post) b = Some out
           \<and> filter (\<lambda>x. nodeName x = className c) out
               = [compareClass (className c) c (find (\<lambda>d. className d = className c) b)]
           \<and> (b = bpre @ d # bpost \<and> className d = className c
                 \<and> (\<forall>x\<in>set bpre. className x \<noteq> className c)
               \<longrightarrow> filter (\<lambda>x. nodeName x = className c) out
                     = [compareClass (className c) c (Some d)])"
proof -
  have fa: "find (\<lambda>x. className x = className c) (pre @ c # post) = Some c"
    using assms by (intro find_first) simp_all
  have f1: "filter (\<lambda>x. nodeName x = className c)
              (nodesFor (pre @ c # post) b (newSet (map className (pre @ c # post))))
            = [compareClass (className c) c (find (\<lambda>d. className d = className c) b)]"
    by (rule compare_node [OF fa])
  have f2: "b = bpre @ d # bpost \<and> className d = className c
              \<and> (\<forall>x\<in>set bpre. className x \<noteq> className c)
            \<longrightarrow> filter (\<lambda>x. nodeName x = className c)
                  (nodesFor (pre @ c # post) b (newSet (map className (pre @ c # post))))
                = [compareClass (className c) c (Some d)]"
  proof
    assume h: "b = bpre @ d # bpost \<and> className d = className c
                 \<and> (\<forall>x\<in>set bpre. className x \<noteq> className c)"
    then have "find (\<lambda>x. className x = className c) b = Some d"
      using find_first [of bpre "\<lambda>x. className x = className c" d bpost] by simp
    with f1 show "filter (\<lambda>x. nodeName x = className c)
                  (nodesFor (pre @ c # post) b (newSet (map className (pre @ c # post))))
                = [compareClass (className c) c (Some d)]" by simp
  qed
  show ?thesis
    by (intro exI conjI; (rule compareParsedClasses_nodes | rule f1 | rule f2))
qed

text \<open>
  C9 at a reference list with two records named \<^verbatim>\<open>Q\<close> and a candidate list with two records
  named \<^verbatim>\<open>Q\<close>: one node for \<^verbatim>\<open>P\<close>, one node for \<^verbatim>\<open>Q\<close>, from the first records.
\<close>

theorem duplicate_names_first_wins_witness:
  "compareParsedClasses [classY ''P'' [], classY ''Q'' [pubInt], classY ''Q'' [privString]]
                        [classY ''Q'' [pubInt], classY ''Q'' []]
   = Some [compareClass ''P'' (classY ''P'' []) None,
           compareClass ''Q'' (classY ''Q'' [pubInt]) (Some (classY ''Q'' [pubInt]))]"
proof -
  let ?a = "[classY ''P'' [], classY ''Q'' [pubInt], classY ''Q'' [privString]]"
  let ?b = "[classY ''Q'' [pubInt], classY ''Q'' []]"
  from duplicate_names_first_wins [of "[classY ''P'' []]" "classY ''Q'' [pubInt]"
      "[classY ''Q'' [privString]]" ?b "[]" "classY ''Q'' [pubInt]" "[classY ''Q'' []]"]
  obtain out where out: "compareParsedClasses ?a ?b = Some out"
    and q: "filter (\<lambda>x. nodeName x = ''Q'') out
            = [compareClass ''Q'' (classY ''Q'' [pubInt]) (Some (classY ''Q'' [pubInt]))]"
    by (auto simp: classY_def)
  from duplicate_names_first_wins [of "[]" "classY ''P'' []"
      "[classY ''Q'' [pubInt], classY ''Q'' [privString]]" ?b]
  have p: "filter (\<lambda>x. nodeName x = ''P'') out = [compareClass ''P'' (classY ''P'' []) None]"
    using out by (auto simp: classY_def)
  have names: "map nodeName out = [''P'', ''Q'']"
    using out map_nodeName_nodesFor [of "newSet (map className ?a)" ?a ?b]
    by (simp add: compareParsedClasses_nodes set_newSet) (simp add: newSet_def setAdd_def classY_def)
  then obtain x y where xy: "out = [x, y]" "nodeName x = ''P''" "nodeName y = ''Q''"
    by (cases out; cases "tl out"; cases "tl (tl out)") auto
  with p q have "x = compareClass ''P'' (classY ''P'' []) None"
    "y = compareClass ''Q'' (classY ''Q'' [pubInt]) (Some (classY ''Q'' [pubInt]))"
    by auto
  with xy out show ?thesis by simp
qed

text \<open>
  C5, as the claim states it, fails for the comparator that emits the per-class nodes:
  with no reference class and one candidate class the lengths differ, and the output is
  the empty list of nodes, with no advisory in it.
\<close>

theorem count_mismatch_counterexample:
  "length ([] :: ClassInfo list) \<noteq> length [classX []]
   \<and> compareParsedClasses [] [classX []] = Some []"
  by (simp add: compareParsedClasses_def newSet_def)

text \<open>
  C5, amended.  The count-mismatch advisory belongs to the comparator that returns a
  report: whenever the two lists differ in length, its first error line is
  \<^verbatim>\<open>Class number mismatch Teacher:[|a|] Student:[|b|]\<close>, whatever the classes are, and
  \<^verbatim>\<open>Identical\<close> is false.  The comparator that returns nodes emits one node for each
  distinct class name of \<open>a\<close> and nothing else.
\<close>

theorem count_mismatch_in_report:
  assumes "length a \<noteq> length b"
  shows "\<exists>r more out. compareParsedClassesReport a b = Some r
           \<and> reportErrors r = classNumberMismatch (length a) (length b) # more
           \<and> \<not> Identical r
           \<and> compareParsedClasses a b = Some out
           \<and> map nodeName out = newSet (map className a)"
proof -
  obtain more where m: "reportLoop a b (newSet (map className a))
                          [classNumberMismatch (length a) (length b)]
                        = Some ([classNumberMismatch (length a) (length b)] @ more)"
    using reportLoop_total [of "newSet (map className a)" a b
        "[classNumberMismatch (length a) (length b)]"] by (auto simp: set_newSet)
  let ?r = "\<lparr>Identical = False,
             reportErrors = classNumberMismatch (length a) (length b) # more\<rparr>"
  have f0: "compareParsedClassesReport a b = Some ?r"
    using assms m by (simp add: compareParsedClassesReport_def)
  have f1: "reportErrors ?r = classNumberMismatch (length a) (length b) # more" by simp
  have f2: "\<not> Identical ?r" by simp
  have f3: "map nodeName (nodesFor a b (newSet (map className a))) = newSet (map className a)"
    by (rule map_nodeName_nodesFor) (simp add: set_newSet)
  show ?thesis
    by (intro exI conjI; (rule f0 | rule f1 | rule f2 | rule f3 | rule compareParsedClasses_nodes))
qed

text \<open>The amended C5 at the lists of the counterexample.\<close>

theorem count_mismatch_in_report_witness:
  "compareParsedClassesReport [] [classX []]
     = Some \<lparr>Identical = False,
             reportErrors = [''Class number mismatch Teacher:[0] Student:[1]'']\<rparr>"
proof -
  from count_mismatch_in_report [of "[]" "[classX []]"]
  obtain r more where r: "compareParsedClassesReport [] [classX []] = Some r"
    "reportErrors r = classNumberMismatch 0 1 # more" "\<not> Identical r"
    by auto
  have "compareParsedClassesReport [] [classX []]
          = Some \<lparr>Identical = False, reportErrors = [classNumberMismatch 0 1]\<rparr>"
    by (simp add: compareParsedClassesReport_def newSet_def)
  with r show ?thesis by (simp add: classNumberMismatch_def BoxA_def BoxB_def showNat_digit digitChar_def)
qed







section \<open>Properties of the parser\<close>

text \<open>
  C3, as the claim states it, fails.  In \<^verbatim>\<open>class A { { } class B { int x; }\<close> the braces
  of \<^verbatim>\<open>A\<close> never balance.  \<^verbatim>\<open>A\<close> is dropped and \<^verbatim>\<open>B\<close> is parsed, but the \<^verbatim>\<open>errors\<close> of the
  result are empty: the message for \<^verbatim>\<open>A\<close> is written to the console only.
\<close>

theorem unmatched_braces_counterexample:
  "parseJavaFile ''class A { { } class B { int x; }''
   = (\<lparr>classes = [\<lparr>className = ''B'', classExtends = None,
                    attributes = [\<lparr>attrModifier = Default, attrType = ''int'', attrName = ''x''\<rparr>],
                    methods = []\<rparr>],
       errors = []\<rparr>,
      [''Error: Unmatched braces in class '' @ [CHR 0x22] @ ''A'' @ [CHR 0x22]])"
  by code_simp

text \<open>
  C3, amended.  For every source text and every class header in it (a result of the
  header expression on the text without comments) whose brace depth never returns to
  zero: the header yields no class record; the classes of the result are exactly the
  records of the headers whose braces balance, in source order, so parsing goes on with
  the remaining classes; the line \<^verbatim>\<open>Error: Unmatched braces in class "name"\<close> is written
  to the console, which holds exactly one such line for each unbalanced header; and the
  \<^verbatim>\<open>errors\<close> of the result hold no line for the class: they are empty when some class was
  extracted and hold only \<^verbatim>\<open>No class declarations found.\<close> otherwise.
\<close>

theorem unmatched_braces_console_only:
  assumes "(name, ext, rest) \<in> set (classMatches (removeComments source))"
    and "findClose 1 rest = None"
  shows "matchClass (name, ext, rest) = []
         \<and> classes (fst (parseJavaFile source))
             = concat (map matchClass (classMatches (removeComments source)))
         \<and> unmatchedBraces name \<in> set (snd (parseJavaFile source))
         \<and> snd (parseJavaFile source)
             = concat (map matchConsole (classMatches (removeComments source)))
         \<and> errors (fst (parseJavaFile source))
             = (if classes (fst (parseJavaFile source)) = []
                then [''No class declarations found.''] else [])"
proof -
  let ?ms = "classMatches (removeComments source)"
  from parseJavaClasses_matches [of "removeComments source"]
  have p: "classes (fst (parseJavaFile source)) = concat (map matchClass ?ms)"
    "snd (parseJavaFile source) = concat (map matchConsole ?ms)"
    "errors (fst (parseJavaFile source))
       = (if concat (map matchClass ?ms) = [] then [''No class declarations found.''] else [])"
    by (simp_all add: parseJavaFile_def)
  have f1: "matchClass (name, ext, rest) = []" using assms(2) by (simp add: matchClass_def)
  have "unmatchedBraces name \<in> set (matchConsole (name, ext, rest))"
    using assms(2) by (simp add: matchConsole_def)
  with assms(1) have f3: "unmatchedBraces name \<in> set (snd (parseJavaFile source))"
    unfolding p(2) by auto
  from p f1 f3 show ?thesis by simp
qed

text \<open>The amended C3 at the source text of the counterexample.\<close>

theorem unmatched_braces_console_only_witness:
  "unmatchedBraces ''A'' \<in> set (snd (parseJavaFile ''class A { { } class B { int x; }''))
   \<and> errors (fst (parseJavaFile ''class A { { } class B { int x; }'')) = []
   \<and> map className (classes (fst (parseJavaFile ''class A { { } class B { int x; }''))) = [''B'']"
proof -
  have m: "classMatches (removeComments ''class A { { } class B { int x; }'')
           = [(''A'', None, '' { } class B { int x; }''), (''B'', None, '' int x; }'')]"
    by code_simp
  have a: "(''A'', None, '' { } class B { int x; }'')
             \<in> set (classMatches (removeComments ''class A { { } class B { int x; }''))"
    unfolding m by simp
  have b: "findClose 1 '' { } class B { int x; }'' = None" by code_simp
  have c: "findClose 1 '' int x; }'' = Some '' int x; ''" by code_simp
  from unmatched_braces_console_only [OF a b]
  have w1: "unmatchedBraces ''A'' \<in> set (snd (parseJavaFile ''class A { { } class B { int x; }''))"
    and w2: "classes (fst (parseJavaFile ''class A { { } class B { int x; }''))
             = concat (map matchClass (classMatches (removeComments ''class A { { } class B { int x; }'')))"
    and w3: "errors (fst (parseJavaFile ''class A { { } class B { int x; }''))
             = (if classes (fst (parseJavaFile ''class A { { } class B { int x; }'')) = []
                then [''No class declarations found.''] else [])"
    by blast+
  from w2 have w4: "map className (classes (fst (parseJavaFile ''class A { { } class B { int x; }'')))
                    = [''B'']"
    unfolding m by (simp add: matchClass_def b c)
  then have "classes (fst (parseJavaFile ''class A { { } class B { int x; }'')) \<noteq> []" by auto
  with w1 w3 w4 show ?thesis by simp
qed

text \<open>
  C4.  The method expression does not exclude a constructor that has an access modifier.
  In \<^verbatim>\<open>public Foo() { }\<close> the optional modifier group cannot be followed by a type token
  and a name, so the expression is tried without it: \<^verbatim>\<open>public\<close> is taken as the return
  type and \<^verbatim>\<open>Foo\<close> as the method name, and the constructor becomes a method record, also
  through \<^verbatim>\<open>parseJavaFile\<close>.  A constructor without a modifier at the start of the body
  yields no record.
\<close>

theorem constructor_with_modifier_is_method:
  "parseJavaMethods ''public Foo() { }''
     = [\<lparr>methodModifier = Default, returnType = ''public'', methodName = ''Foo'', parameters = []\<rparr>]
   \<and> methods (hd (classes (fst (parseJavaFile ''class Foo { public Foo() { } }''))))
     = [\<lparr>methodModifier = Default, returnType = ''public'', methodName = ''Foo'', parameters = []\<rparr>]
   \<and> parseJavaMethods ''Foo() { }'' = []"
  by code_simp

text \<open>
  C10.  The attribute parser scans the whole class body, method bodies included.  Let the
  body hold, anywhere, a declaration \<^verbatim>\<open>Type name;\<close>, optionally prefixed by \<^verbatim>\<open>public\<close>,
  \<^verbatim>\<open>private\<close> or \<^verbatim>\<open>protected\<close>, where the character before the declaration is not part of
  a type token (so that \<^verbatim>\<open>Type\<close> is a whole token) and, for a declaration without a
  prefix, the text before it does not end with one of the three modifiers.  Then the
  parser returns the declaration as an attribute record with that modifier (\<^verbatim>\<open>default\<close>
  without a prefix), type and name, unless the type token is \<^verbatim>\<open>return\<close>; no record of
  the parser has the type \<^verbatim>\<open>return\<close>.
\<close>

theorem local_declaration_parsed:
  assumes "pre = [] \<or> \<not> isTypeChar (last pre)"
    and "m = Default \<longrightarrow> \<not> afterModifier pre"
    and "token isTypeChar ty" "token isSpace w1" "token isWord nm" "spaces w2"
    and "m \<noteq> Default \<longrightarrow> token isSpace wm"
  shows "(ty \<noteq> ''return'' \<longrightarrow>
            \<lparr>attrModifier = m, attrType = ty, attrName = nm\<rparr>
              \<in> set (parseJavaAttributes (pre @ declText m wm ty w1 nm w2 @ post)))
         \<and> (\<forall>r\<in>set (parseJavaAttributes (pre @ declText m wm ty w1 nm w2 @ post)).
               attrType r \<noteq> ''return'')"
proof -
  let ?d = "declText m wm ty w1 nm w2 @ post"
  have ma: "matchAttr ?d = Some (m, ty, nm, post)"
    by (rule matchAttr_decl [OF assms(3-7)])
  have "?d \<noteq> []" by (simp add: declText_def)
  then obtain c cs where d: "?d = c # cs" by (cases ?d) auto
  have "parseJavaAttributes ?d
        = (if ty \<noteq> ''return'' then [\<lparr>attrModifier = m, attrType = ty, attrName = nm\<rparr>] else [])
          @ parseJavaAttributes post"
    using ma unfolding d by simp
  then have "ty \<noteq> ''return'' \<longrightarrow>
               \<lparr>attrModifier = m, attrType = ty, attrName = nm\<rparr> \<in> set (parseJavaAttributes ?d)"
    by simp
  moreover have "set (parseJavaAttributes ?d) \<subseteq> set (parseJavaAttributes (pre @ ?d))"
    using scan_reaches_declaration [OF assms(3-7) assms(1,2), of "[]" pre post] by simp
  ultimately have "ty \<noteq> ''return'' \<longrightarrow>
               \<lparr>attrModifier = m, attrType = ty, attrName = nm\<rparr> \<in> set (parseJavaAttributes (pre @ ?d))"
    by auto
  then show ?thesis using parseJavaAttributes_no_return by blast
qed

text \<open>
  C10 at a method body with a \<^verbatim>\<open>final\<close> local variable and a \<^verbatim>\<open>return\<close> statement: the
  local variable is an attribute of the class, the \<^verbatim>\<open>return\<close> statement is not.
\<close>

theorem local_declaration_parsed_witness:
  "\<lparr>attrModifier = Default, attrType = ''int'', attrName = ''y''\<rparr>
     \<in> set (parseJavaAttributes ''void f() { final int y; return y; }'')
   \<and> \<lparr>attrModifier = Default, attrType = ''return'', attrName = ''y''\<rparr>
     \<notin> set (parseJavaAttributes ''void f() { final int y; return y; }'')"
proof -
  have a: "''void f() { final '' = [] \<or> \<not> isTypeChar (last ''void f() { final '')"
    by (simp add: isTypeChar_def isWord_def)
  have a': "Default = Default \<longrightarrow> \<not> afterModifier ''void f() { final ''"
    by (simp add: afterModifier_def isSpace_def)
  have b: "token isTypeChar ''int''" "token isSpace '' ''" "token isWord ''y''" "spaces []"
    by (simp_all add: token_def spaces_def isSpace_def isTypeChar_def isWord_def)
  from local_declaration_parsed [OF a a' b, of "[]" "'' return y; }''"]
  show ?thesis by (auto simp: declText_def)
qed

end
